theory Spec2Isabelle
  imports Main "HOL-Library.Word" "HOL-Library.Multiset"
begin

section \<open>The JSON-RPC client of shovel (src/jrpc2/client.go)\<close>

text \<open>
  A shallow embedding of the client: Go's \<open>uint64\<close> is \<open>64 word\<close> (arithmetic wraps,
  comparisons are unsigned), Go's \<open>int\<close> counters (\<open>nreads\<close>, \<open>maxreads\<close>, the JSON-RPC
  error code) are \<open>int\<close>, byte slices are lists of \<open>8 word\<close> (a nil slice and an empty
  slice are both \<open>[]\<close>), and every \<open>error\<close> the code builds is a value of the datatype
  \<open>err\<close>. Methods that mutate their receiver take the old value and return the new one.
  Calls are sequential: the mutexes of the source are not modelled.
\<close>

type_synonym u64 = "64 word"
type_synonym byte = "8 word"
type_synonym bytes = "byte list"

subsection \<open>Errors\<close>

text \<open>\<open>type Error struct { Code int; Message string }\<close>, the JSON-RPC error object.\<close>

record Error =
  Code :: int
  Message :: string

definition Exists :: "Error \<Rightarrow> bool" where
  "Exists e = (Code e \<noteq> 0)"

text \<open>
  One constructor for each place where the source builds an error. \<open>Wrap tag e\<close> is
  \<open>fmt.Errorf("tag: %w", e)\<close>, \<open>Rpc tag e\<close> is \<open>fmt.Errorf("rpc=tag %w", e)\<close> around a JSON-RPC
  error object, \<open>Transport\<close> is whatever \<open>Client.do\<close> returned, and \<open>NilDeref\<close>,
  \<open>IndexOutOfRange\<close> and \<open>DivideByZero\<close> are the run-time panics of the modelled code.
\<close>

datatype err =
    Transport string
  | Wrap string err
  | Rpc string Error
  | NoBlocks string
  | InvalidFirst string u64 u64
  | InvalidLast string u64 u64
  | CorruptSegment string
  | ReceiptsOutOfRange u64 u64 u64
  | LogsOutOfRange u64 u64 u64
  | BlockNotFound
  | MissingLogsBlock u64
  | NilDeref
  | IndexOutOfRange
  | DivideByZero

subsection \<open>Byte strings of the eth package\<close>

text \<open>
  Modelled from the spec: \<open>eth.Bytes.Write\<close> is code of the repository's eth package, which
  is not among the sources. The spec describes its uses as "replace" (update), "hash
  cleared" (the reset with an empty slice) and "write the reported block hash into the
  header": the receiver's content becomes the written bytes.
\<close>

definition Bytes_Write :: "bytes \<Rightarrow> bytes \<Rightarrow> bytes" where
  "Bytes_Write hb p = p"

text \<open>
  Go's builtin \<open>copy(dst, src)\<close>: the first \<open>min (len dst) (len src)\<close> elements of \<open>dst\<close>
  are overwritten, the length of \<open>dst\<close> stays.
\<close>

definition copy_into :: "'a list \<Rightarrow> 'a list \<Rightarrow> 'a list" where
  "copy_into dst src = take (length dst) src @ drop (length src) dst"

subsection \<open>Blocks of the eth package\<close>

text \<open>
  Modelled from the spec: the types \<open>eth.Header\<close>, \<open>eth.Log\<close>, \<open>eth.Tx\<close> and \<open>eth.Block\<close> and
  the methods \<open>Block.Num\<close>, \<open>Block.Hash\<close>, \<open>Block.Tx\<close> and \<open>Logs.Add\<close> belong to the
  repository's eth package, which is not among the sources. The records hold the fields
  that client.go reads and writes, under the names it uses. The spec's data model gives a
  header a number, a hash and a parent hash, and a block a header and an ordered sequence
  of transactions "addressed by index within the block"; \<open>validate\<close> compares
  \<open>blocks[i].parentHash\<close> with \<open>blocks[i-1].hash\<close>, so \<open>Block.Hash\<close> is the header's hash.
  \<open>Block.Tx idx\<close> "locates the transaction at txIdx within the block"; scenario 3 of the
  spec has it create the transaction when a block has none with that index. \<open>Logs.Add\<close>
  "appends each log into the tx's log list preserving upstream order".
\<close>

record Header =
  Number :: u64
  Hash :: bytes
  Parent :: bytes

record Log =
  log_Idx :: u64
  Address :: bytes
  Topics :: "bytes list"
  Data :: bytes

record Tx =
  Idx :: u64
  PrecompHash :: bytes
  Type :: byte
  From :: bytes
  To :: bytes
  Status :: byte
  GasUsed :: u64
  EffectiveGasPrice :: "256 word"
  Logs :: "Log list"
  ContractAddress :: bytes
  L1BaseFeeScalar :: "256 word option"
  L1BlobBaseFee :: "256 word option"
  L1BlobBaseFeeScalar :: "256 word option"
  L1Fee :: "256 word option"
  L1GasPrice :: "256 word option"
  L1GasUsed :: "u64 option"

record Block =
  Header :: Header
  Txs :: "Tx list"

definition zero_Header :: Header where
  "zero_Header = \<lparr>Number = 0, Hash = [], Parent = []\<rparr>"

definition zero_Block :: Block where
  "zero_Block = \<lparr>Header = zero_Header, Txs = []\<rparr>"

definition zero_Tx :: Tx where
  "zero_Tx = \<lparr>Idx = 0, PrecompHash = [], Type = 0, From = [], To = [], Status = 0,
     GasUsed = 0, EffectiveGasPrice = 0, Logs = [], ContractAddress = [],
     L1BaseFeeScalar = None, L1BlobBaseFee = None, L1BlobBaseFeeScalar = None,
     L1Fee = None, L1GasPrice = None, L1GasUsed = None\<rparr>"

definition Num :: "Block \<Rightarrow> u64" where
  "Num b = Number (Header b)"

definition Block_Hash :: "Block \<Rightarrow> bytes" where
  "Block_Hash b = Hash (Header b)"

text \<open>
  \<open>Block_Tx b idx\<close> is the block, extended by a new transaction when none has the index,
  and the position of the transaction with that index (the pointer the method returns).
\<close>

fun find_Tx :: "Tx list \<Rightarrow> u64 \<Rightarrow> nat option" where
  "find_Tx [] idx = None"
| "find_Tx (t # ts) idx =
     (if Idx t = idx then Some 0 else map_option Suc (find_Tx ts idx))"

definition Block_Tx :: "Block \<Rightarrow> u64 \<Rightarrow> Block \<times> nat" where
  "Block_Tx b idx =
     (case find_Tx (Txs b) idx of
        Some i \<Rightarrow> (b, i)
      | None \<Rightarrow> (b\<lparr>Txs := Txs b @ [zero_Tx\<lparr>Idx := idx\<rparr>]\<rparr>, length (Txs b)))"

definition Logs_Add :: "Log list \<Rightarrow> Log \<Rightarrow> Log list" where
  "Logs_Add ls l = ls @ [l]"

subsection \<open>The transport\<close>

text \<open>
  \<open>Client.do\<close> performs the HTTP exchange and decodes the reply into the caller's
  destination. It is the environment of the model: a function from the state of the
  outside world \<open>'w\<close> and the window \<open>start\<close>, \<open>limit\<close> of the request to the error \<open>do\<close>
  returns or the decoded reply, and the next state of the world. A call that is not made
  leaves the world as it is; this is how the theorems say that no request was issued.
\<close>

type_synonym ('w, 'r) rpc = "'w \<Rightarrow> u64 \<Rightarrow> u64 \<Rightarrow> (err + 'r) \<times> 'w"

text \<open>
  \<open>type getter func(ctx, url, start, limit) ([]eth.Block, error)\<close>: Go's pair of a slice
  and an error is kept as a pair, the error \<open>None\<close> for \<open>nil\<close>.
\<close>

type_synonym 'w getter = "'w \<Rightarrow> u64 \<Rightarrow> u64 \<Rightarrow> (Block list \<times> err option) \<times> 'w"

subsection \<open>validate and the primary fetchers\<close>

text \<open>
  The loop \<open>for i := 1; i < len(blocks); i++\<close> of \<open>validate\<close> compares each block with its
  predecessor; \<open>links\<close> walks the adjacent pairs in the same order.
\<close>

fun links :: "string \<Rightarrow> Block list \<Rightarrow> err option" where
  "links caller (b0 # b1 # bs) =
     (if Parent (Header b1) \<noteq> Block_Hash b0 then Some (CorruptSegment caller)
      else links caller (b1 # bs))"
| "links caller blocks = None"

definition validate :: "string \<Rightarrow> u64 \<Rightarrow> u64 \<Rightarrow> Block list \<Rightarrow> err option" where
  "validate caller start limit blocks =
     (if length blocks = 0 then Some (NoBlocks caller)
      else
        let first = Num (blocks ! 0); last = Num (blocks ! (length blocks - 1)) in
        if first \<noteq> start then Some (InvalidFirst caller start first)
        else if last \<noteq> start + limit - 1 then
          Some (InvalidLast caller (start + limit - 1) last)
        else links caller blocks)"

text \<open>
  \<open>blockResp\<close> and \<open>headerResp\<close>: the embedded \<open>Error\<close> and the \<open>result\<close> pointer, \<open>None\<close> for
  a reply without a result. The fetchers allocate \<open>blocks = make([]eth.Block, limit)\<close> and
  point the i-th response's result at \<open>blocks[i]\<close> (at its header, for \<open>headers\<close>) before
  the call, so that decoding fills the slice by position: a block that no response
  fills keeps its zero value, and responses beyond \<open>limit\<close> fill nothing.
\<close>

record blockResp =
  br_Error :: Error
  br_Block :: "Block option"

record headerResp =
  hr_Error :: Error
  hr_Header :: "Header option"

definition decoded :: "'a \<Rightarrow> u64 \<Rightarrow> 'a option list \<Rightarrow> 'a list" where
  "decoded zero limit results =
     map (\<lambda>i. if i < length results then (case results ! i of Some b \<Rightarrow> b | None \<Rightarrow> zero)
               else zero)
       [0..<unat limit]"

definition Client_blocks :: "('w, blockResp list) rpc \<Rightarrow> 'w getter" where
  "Client_blocks do w start limit =
     (case do w start limit of
        (Inl e, w') \<Rightarrow> (([], Some (Wrap ''requesting blocks'' e)), w')
      | (Inr resps, w') \<Rightarrow>
          (case find (\<lambda>r. Exists (br_Error r)) resps of
             Some r \<Rightarrow> (([], Some (Rpc ''eth_getBlockByNumber'' (br_Error r))), w')
           | None \<Rightarrow>
               (let blocks = decoded zero_Block limit (map br_Block resps)
                in ((blocks, validate ''blocks'' start limit blocks), w'))))"

definition Client_headers :: "('w, headerResp list) rpc \<Rightarrow> 'w getter" where
  "Client_headers do w start limit =
     (case do w start limit of
        (Inl e, w') \<Rightarrow> (([], Some (Wrap ''requesting headers'' e)), w')
      | (Inr resps, w') \<Rightarrow>
          (case find (\<lambda>r. Exists (hr_Error r)) resps of
             Some r \<Rightarrow> (([], Some (Rpc ''eth_getBlockByNumber/headers'' (hr_Error r))), w')
           | None \<Rightarrow>
               (let blocks = map (\<lambda>h. \<lparr>Header = h, Txs = []\<rparr>)
                               (decoded zero_Header limit (map hr_Header resps))
                in ((blocks, validate ''headers'' start limit blocks), w'))))"

subsection \<open>The tip cache: NumHash\<close>

text \<open>
  \<open>once\<close> is \<open>True\<close> when the \<open>sync.Once\<close> has fired; assigning \<open>sync.Once{}\<close> makes it
  \<open>False\<close> again.
\<close>

record NumHash =
  nh_err :: "err option"
  nh_once :: bool
  nh_maxreads :: int
  nh_nreads :: int
  nh_Num :: u64
  nh_Hash :: bytes

definition NumHash_error :: "NumHash \<Rightarrow> err \<Rightarrow> NumHash" where
  "NumHash_error nh e = nh\<lparr>nh_nreads := 0, nh_err := Some e\<rparr>"

definition NumHash_update :: "NumHash \<Rightarrow> u64 \<Rightarrow> bytes \<Rightarrow> NumHash" where
  "NumHash_update nh n h =
     (if n \<le> nh_Num nh then nh
      else nh\<lparr>nh_nreads := 0, nh_Num := n, nh_Hash := Bytes_Write (nh_Hash nh) h\<rparr>)"

text \<open>The result is Go's triple \<open>(uint64, []byte, bool)\<close> and the receiver after the call.\<close>

definition NumHash_get :: "NumHash \<Rightarrow> u64 \<Rightarrow> (u64 \<times> bytes \<times> bool) \<times> NumHash" where
  "NumHash_get nh n =
     (if nh_err nh \<noteq> None then
        ((0, [], False), nh\<lparr>nh_err := None, nh_once := False\<rparr>)
      else if n = 0 \<or> nh_Num nh < n then
        ((0, [], False), nh)
      else if nh_nreads nh \<ge> nh_maxreads nh then
        ((0, [], False),
         nh\<lparr>nh_nreads := 0, nh_Num := 0, nh_Hash := Bytes_Write (nh_Hash nh) []\<rparr>)
      else
        (let nh' = nh\<lparr>nh_nreads := nh_nreads nh + 1\<rparr>;
             h = copy_into (replicate 32 0) (nh_Hash nh')
         in ((nh_Num nh', h, True), nh')))"

text \<open>
  The operations that reach a \<open>NumHash\<close>: the refreshers call \<open>error\<close> and \<open>update\<close>,
  \<open>Latest\<close> calls \<open>get\<close> and \<open>update\<close>.
\<close>

datatype nh_op = OpError err | OpUpdate u64 bytes | OpGet u64

fun nh_apply :: "NumHash \<Rightarrow> nh_op \<Rightarrow> NumHash" where
  "nh_apply nh (OpError e) = NumHash_error nh e"
| "nh_apply nh (OpUpdate n h) = NumHash_update nh n h"
| "nh_apply nh (OpGet n) = snd (NumHash_get nh n)"

fun updates :: "NumHash \<Rightarrow> (u64 \<times> bytes) list \<Rightarrow> NumHash" where
  "updates nh [] = nh"
| "updates nh ((n, h) # us) = updates (NumHash_update nh n h) us"

text \<open>The branch of \<open>get\<close> that expires the cached tip.\<close>

definition expires :: "NumHash \<Rightarrow> u64 \<Rightarrow> bool" where
  "expires nh n =
     (nh_err nh = None \<and> n \<noteq> 0 \<and> n \<le> nh_Num nh \<and> nh_maxreads nh \<le> nh_nreads nh)"

subsection \<open>The range cache\<close>

text \<open>
  \<open>type key struct { a, b uint64 }\<close> is a pair, \<open>a\<close> its first component. The table
  \<open>segments map[key]*segment\<close> is an association list with one entry for each key; a nil
  table and an empty one are both \<open>[]\<close>.
\<close>

type_synonym key = "u64 \<times> u64"

record segment =
  seg_nreads :: int
  seg_done :: bool
  seg_d :: "Block list"

record cache =
  c_maxreads :: int
  c_segments :: "(key \<times> segment) list"

definition new_segment :: segment where
  "new_segment = \<lparr>seg_nreads = 0, seg_done = False, seg_d = []\<rparr>"

definition cache_keys :: "cache \<Rightarrow> key list" where
  "cache_keys c = map fst (c_segments c)"

definition pruneMaxRead :: "cache \<Rightarrow> cache" where
  "pruneMaxRead c =
     c\<lparr>c_segments := filter (\<lambda>(k, v). \<not> seg_nreads v \<ge> c_maxreads c) (c_segments c)\<rparr>"

text \<open>
  \<open>pruneSegments\<close> collects the keys in the iteration order of a Go map, which is not
  specified, and sorts them with \<open>sort.Slice\<close>, which is not stable. Both choices are one
  parameter of the model, the \<open>sorter\<close>: it stands for the slice \<open>keys\<close> after
  \<open>sort.Slice\<close> returned. \<open>sorts\<close> is all the source guarantees about it: the same keys,
  no key before one with a greater \<open>a\<close>.
\<close>

type_synonym sorter = "key list \<Rightarrow> key list"

definition sorts :: "sorter \<Rightarrow> bool" where
  "sorts srt = (\<forall>ks. mset (srt ks) = mset ks \<and> sorted_wrt (\<lambda>x y. fst y \<le> fst x) (srt ks))"

definition pruneSegments :: "sorter \<Rightarrow> cache \<Rightarrow> cache" where
  "pruneSegments srt c =
     (if length (c_segments c) \<le> 5 then c
      else
        let keys = srt (cache_keys c) in
        c\<lparr>c_segments := filter (\<lambda>(k, v). k \<notin> set (drop 5 keys)) (c_segments c)\<rparr>)"

text \<open>
  The part of \<open>cache.get\<close> under the cache's lock, up to \<open>pruneSegments\<close>: the segment for the
  key and the table with it.
\<close>

definition find_segment :: "cache \<Rightarrow> key \<Rightarrow> segment \<times> cache" where
  "find_segment c k =
     (let c1 = pruneMaxRead c in
      case map_of (c_segments c1) k of
        Some seg \<Rightarrow> (seg, c1)
      | None \<Rightarrow> (new_segment, c1\<lparr>c_segments := c_segments c1 @ [(k, new_segment)]\<rparr>))"

text \<open>
  \<open>seg\<close> is a pointer: the writes to it after \<open>pruneSegments\<close> reach the table only when the
  table still holds the segment. A segment that \<open>pruneSegments\<close> has just deleted is
  written all the same, and is then out of every later caller's reach.
\<close>

definition store :: "cache \<Rightarrow> key \<Rightarrow> segment \<Rightarrow> cache" where
  "store c k seg =
     c\<lparr>c_segments := map (\<lambda>(k', v). if k' = k then (k', seg) else (k', v)) (c_segments c)\<rparr>"

definition cache_get ::
  "sorter \<Rightarrow> cache \<Rightarrow> bool \<Rightarrow> 'w getter \<Rightarrow> 'w \<Rightarrow> u64 \<Rightarrow> u64 \<Rightarrow>
     (Block list \<times> err option) \<times> cache \<times> 'w" where
  "cache_get srt c nocache f w start limit =
     (if nocache then (case f w start limit of (r, w') \<Rightarrow> (r, c, w'))
      else
        case find_segment c (start, limit) of (seg, c2) \<Rightarrow>
        let c3 = pruneSegments srt c2;
            seg1 = seg\<lparr>seg_nreads := seg_nreads seg + 1\<rparr>
        in
        if seg_done seg1 then ((seg_d seg1, None), store c3 (start, limit) seg1, w)
        else
          case f w start limit of
            ((blocks, Some e), w') \<Rightarrow>
              (([], Some (Wrap ''cache get'' e)), store c3 (start, limit) seg1, w')
          | ((blocks, None), w') \<Rightarrow>
              (let seg2 = seg1\<lparr>seg_d := blocks, seg_done := True\<rparr>
               in ((seg_d seg2, None), store c3 (start, limit) seg2, w')))"

text \<open>
  Sequential calls of \<open>cache.get\<close> for one key, one sorter for each call: the result, the
  cache and the world after each call.
\<close>

fun cache_gets ::
  "sorter list \<Rightarrow> cache \<Rightarrow> 'w getter \<Rightarrow> 'w \<Rightarrow> u64 \<Rightarrow> u64 \<Rightarrow>
     ((Block list \<times> err option) \<times> cache \<times> 'w) list" where
  "cache_gets [] c f w start limit = []"
| "cache_gets (srt # srts) c f w start limit =
     (case cache_get srt c False f w start limit of
        (r, c', w') \<Rightarrow> (r, c', w') # cache_gets srts c' f w' start limit)"

text \<open>A sorter for the examples: ascending by \<open>a\<close> with the library's sort, reversed.\<close>

definition sort_desc :: sorter where
  "sort_desc ks = rev (sort_key fst ks)"

subsection \<open>The client\<close>

text \<open>
  \<open>url.Parse\<close> is the parameter \<open>parse\<close>; \<open>MustURL\<close> ends the process when it fails, which is
  the result \<open>None\<close>. The HTTP client \<open>hc\<close> of the source is part of the transport.
  \<open>pollDuration\<close> is in nanoseconds.
\<close>

record 'u URL =
  parsed :: 'u
  provided :: string

record 'u Client =
  nocache :: bool
  d :: bool
  urls :: "'u URL list"
  wsurl :: string
  reqCounter :: u64
  pollDuration :: int
  lcache :: NumHash
  bcache :: cache
  hcache :: cache

definition MustURL :: "(string \<Rightarrow> 'u option) \<Rightarrow> string \<Rightarrow> 'u URL option" where
  "MustURL parse p =
     (case parse p of None \<Rightarrow> None | Some u \<Rightarrow> Some \<lparr>parsed = u, provided = p\<rparr>)"

text \<open>\<open>strings.Contains s substr\<close>: \<open>substr\<close> starts at some position of \<open>s\<close>.\<close>

fun Contains :: "string \<Rightarrow> string \<Rightarrow> bool" where
  "Contains [] substr = (substr = [])"
| "Contains (x # s) substr = (take (length substr) (x # s) = substr \<or> Contains s substr)"

text \<open>The loop of \<open>New\<close> over the provided strings, on \<open>urls\<close>, \<open>debug\<close> and \<open>nocache\<close>.\<close>

fun New_loop ::
  "(string \<Rightarrow> 'u option) \<Rightarrow> string list \<Rightarrow> 'u URL list \<times> bool \<times> bool \<Rightarrow>
     ('u URL list \<times> bool \<times> bool) option" where
  "New_loop parse [] vars = Some vars"
| "New_loop parse (p # ps) (us, debug, nc) =
     (case MustURL parse p of
        None \<Rightarrow> None
      | Some u \<Rightarrow> New_loop parse ps (us @ [u], Contains p ''debug'', Contains p ''nocache''))"

definition zero_NumHash :: NumHash where
  "zero_NumHash = \<lparr>nh_err = None, nh_once = False, nh_maxreads = 0, nh_nreads = 0,
     nh_Num = 0, nh_Hash = []\<rparr>"

definition New :: "(string \<Rightarrow> 'u option) \<Rightarrow> string list \<Rightarrow> 'u Client option" where
  "New parse providedURLs =
     (case New_loop parse providedURLs ([], False, False) of
        None \<Rightarrow> None
      | Some (us, debug, nc) \<Rightarrow>
          Some \<lparr>nocache = nc, d = debug, urls = us, wsurl = [], reqCounter = 0,
                pollDuration = 1000000000,
                lcache = zero_NumHash\<lparr>nh_maxreads := 20\<rparr>,
                bcache = \<lparr>c_maxreads = 20, c_segments = []\<rparr>,
                hcache = \<lparr>c_maxreads = 20, c_segments = []\<rparr>\<rparr>)"

text \<open>\<open>WithMaxReads\<close> sets the read limit of the three caches.\<close>

definition WithMaxReads :: "'u Client \<Rightarrow> int \<Rightarrow> 'u Client" where
  "WithMaxReads c n =
     c\<lparr>lcache := (lcache c)\<lparr>nh_maxreads := n\<rparr>,
       bcache := (bcache c)\<lparr>c_maxreads := n\<rparr>,
       hcache := (hcache c)\<lparr>c_maxreads := n\<rparr>\<rparr>"

text \<open>
  \<open>NextURL\<close>: the counter is incremented, then read. The remainder by \<open>uint64(len(c.urls))\<close>
  panics when the client has no URL.
\<close>

definition NextURL :: "'u Client \<Rightarrow> (err + 'u URL) \<times> 'u Client" where
  "NextURL c =
     (let c' = c\<lparr>reqCounter := reqCounter c + 1\<rparr> in
      if length (urls c') = 0 then (Inl DivideByZero, c')
      else
        let next = reqCounter c' mod of_nat (length (urls c'))
        in (Inr (urls c' ! unat next), c'))"

text \<open>The results of \<open>n\<close> sequential calls of \<open>NextURL\<close>.\<close>

fun NextURLs :: "nat \<Rightarrow> 'u Client \<Rightarrow> (err + 'u URL) list" where
  "NextURLs 0 c = []"
| "NextURLs (Suc n) c = (case NextURL c of (r, c') \<Rightarrow> r # NextURLs n c')"

text \<open>
  \<open>Latest\<close>. \<open>once.Do\<close> starts the refresher when the flag has not fired and leaves it
  fired; the refresher itself runs beside the callers and reaches the tip cache only
  through \<open>NumHash_error\<close> and \<open>NumHash_update\<close>. The request of \<open>Latest\<close> is always
  \<open>eth_getBlockByNumber("latest", false)\<close>, so its transport takes the world alone. A reply
  with neither an error nor a result leaves the header pointer nil, and reading
  \<open>hresp.Number\<close> panics.
\<close>

definition Latest ::
  "('w \<Rightarrow> (err + headerResp) \<times> 'w) \<Rightarrow> 'u Client \<Rightarrow> 'w \<Rightarrow> u64 \<Rightarrow>
     (err + u64 \<times> bytes) \<times> 'u Client \<times> 'w" where
  "Latest do c w n =
     (case NumHash_get ((lcache c)\<lparr>nh_once := True\<rparr>) n of
        ((num, h, ok), nh) \<Rightarrow>
          if ok then (Inr (num, h), c\<lparr>lcache := nh\<rparr>, w)
          else
            case do w of
              (Inl e, w') \<Rightarrow> (Inl (Wrap ''unable request latest'' e), c\<lparr>lcache := nh\<rparr>, w')
            | (Inr hresp, w') \<Rightarrow>
                if Exists (hr_Error hresp) then
                  (Inl (Rpc ''eth_getBlockByNumber/latest'' (hr_Error hresp)),
                   c\<lparr>lcache := nh\<rparr>, w')
                else
                  case hr_Header hresp of
                    None \<Rightarrow> (Inl NilDeref, c\<lparr>lcache := nh\<rparr>, w')
                  | Some hdr \<Rightarrow>
                      (Inr (Number hdr, Hash hdr),
                       c\<lparr>lcache := NumHash_update nh (Number hdr) (Hash hdr)\<rparr>, w'))"

text \<open>
  Modelled from the spec: \<open>glf.Filter\<close> belongs to another package of the repository; the
  spec gives it the booleans that \<open>Get\<close> reads (its address and topic selectors only enter
  the request of \<open>logs\<close>).
\<close>

record Filter =
  UseBlocks :: bool
  UseHeaders :: bool
  UseReceipts :: bool
  UseLogs :: bool
  UseTraces :: bool

text \<open>
  The first \<open>switch\<close> of \<open>Get\<close>: the primary blocks come from \<open>blocks\<close> through the block
  cache, from \<open>headers\<close> through the header cache, or are \<open>limit\<close> blocks that carry their
  number only. On an error of the cache \<open>Get\<close> returns nil blocks and the wrapped error.
  The enrichment that follows in \<open>Get\<close> works on these blocks in place.
\<close>

definition Get_primary ::
  "sorter \<Rightarrow> ('w, blockResp list) rpc \<Rightarrow> ('w, headerResp list) rpc \<Rightarrow> 'u Client \<Rightarrow>
     Filter \<Rightarrow> 'w \<Rightarrow> u64 \<Rightarrow> u64 \<Rightarrow> (Block list \<times> err option) \<times> 'u Client \<times> 'w" where
  "Get_primary srt dob doh c flt w start limit =
     (if UseBlocks flt then
        (case cache_get srt (bcache c) (nocache c) (Client_blocks dob) w start limit of
           ((blocks, Some e), bc, w') \<Rightarrow>
             (([], Some (Wrap ''getting blocks'' e)), c\<lparr>bcache := bc\<rparr>, w')
         | ((blocks, None), bc, w') \<Rightarrow> ((blocks, None), c\<lparr>bcache := bc\<rparr>, w'))
      else if UseHeaders flt then
        (case cache_get srt (hcache c) (nocache c) (Client_headers doh) w start limit of
           ((blocks, Some e), hc, w') \<Rightarrow>
             (([], Some (Wrap ''getting headers'' e)), c\<lparr>hcache := hc\<rparr>, w')
         | ((blocks, None), hc, w') \<Rightarrow> ((blocks, None), c\<lparr>hcache := hc\<rparr>, w'))
      else
        ((map (\<lambda>i. zero_Block\<lparr>Header := zero_Header\<lparr>Number := start + of_nat i\<rparr>\<rparr>)
            [0..<unat limit], None), c, w))"

subsection \<open>Enrichment: receipts and logs\<close>

text \<open>
  \<open>type blockmap map[uint64]*eth.Block\<close>. \<open>Get\<close> fills it with one pointer for each block
  number, so two keys never share a block, and the enrichment functions only look keys
  up: the store they mutate is a map from the number to the block, taken and returned.
\<close>

type_synonym blockmap = "u64 \<rightharpoonup> Block"

record receiptResult =
  rr_BlockHash :: bytes
  rr_BlockNum :: u64
  rr_TxHash :: bytes
  rr_TxIdx :: u64
  rr_TxType :: byte
  rr_TxFrom :: bytes
  rr_TxTo :: bytes
  rr_Status :: byte
  rr_GasUsed :: u64
  rr_EffectiveGasPrice :: "256 word"
  rr_Logs :: "Log list"
  rr_ContractAddress :: bytes
  rr_L1BaseFeeScalar :: "256 word option"
  rr_L1BlobBaseFee :: "256 word option"
  rr_L1BlobBaseFeeScalar :: "256 word option"
  rr_L1Fee :: "256 word option"
  rr_L1GasPrice :: "256 word option"
  rr_L1GasUsed :: "u64 option"

record receiptResp =
  rcr_Error :: Error
  rcr_Result :: "receiptResult list"

text \<open>
  The body of the inner loop of \<open>receipts\<close>: the transaction slot is \<open>b.Tx(TxIdx)\<close>, and
  \<open>receipt_tx\<close> writes every field from the receipt. \<open>tx.Logs\<close> becomes a fresh copy of the
  receipt's logs.
\<close>

definition receipt_tx :: "Tx \<Rightarrow> receiptResult \<Rightarrow> Tx" where
  "receipt_tx tx r = tx\<lparr>
     PrecompHash := Bytes_Write (PrecompHash tx) (rr_TxHash r),
     Type := rr_TxType r,
     From := Bytes_Write (From tx) (rr_TxFrom r),
     To := Bytes_Write (To tx) (rr_TxTo r),
     Status := rr_Status r,
     GasUsed := rr_GasUsed r,
     EffectiveGasPrice := rr_EffectiveGasPrice r,
     Logs := rr_Logs r,
     ContractAddress := Bytes_Write (ContractAddress tx) (rr_ContractAddress r),
     L1BaseFeeScalar := rr_L1BaseFeeScalar r,
     L1BlobBaseFee := rr_L1BlobBaseFee r,
     L1BlobBaseFeeScalar := rr_L1BlobBaseFeeScalar r,
     L1Fee := rr_L1Fee r,
     L1GasPrice := rr_L1GasPrice r,
     L1GasUsed := rr_L1GasUsed r\<rparr>"

definition write_receipt :: "Block \<Rightarrow> receiptResult \<Rightarrow> Block" where
  "write_receipt b r =
     (case Block_Tx b (rr_TxIdx r) of
        (b1, i) \<Rightarrow> b1\<lparr>Txs := (Txs b1)[i := receipt_tx (Txs b1 ! i) r]\<rparr>)"

text \<open>
  The second loop of \<open>receipts\<close> over the responses. A return with an error leaves the
  blocks written so far as they are.
\<close>

fun receipts_loop :: "u64 \<Rightarrow> u64 \<Rightarrow> blockmap \<Rightarrow> receiptResp list \<Rightarrow> err option \<times> blockmap" where
  "receipts_loop start limit bm [] = (None, bm)"
| "receipts_loop start limit bm (resp # resps) =
     (case rcr_Result resp of
        [] \<Rightarrow> receipts_loop start limit bm resps
      | r0 # rs \<Rightarrow>
          let blockNum = rr_BlockNum r0 in
          if blockNum < start \<or> blockNum > start + limit then
            (Some (ReceiptsOutOfRange blockNum start limit), bm)
          else
            case bm blockNum of
              None \<Rightarrow> (Some BlockNotFound, bm)
            | Some b \<Rightarrow>
                let b1 = b\<lparr>Header := (Header b)\<lparr>Hash :=
                           Bytes_Write (Hash (Header b)) (rr_BlockHash r0)\<rparr>\<rparr>;
                    b2 = foldl write_receipt b1 (r0 # rs)
                in receipts_loop start limit (bm(blockNum \<mapsto> b2)) resps)"

definition Client_receipts ::
  "('w, receiptResp list) rpc \<Rightarrow> 'w \<Rightarrow> blockmap \<Rightarrow> u64 \<Rightarrow> u64 \<Rightarrow>
     (err option \<times> blockmap) \<times> 'w" where
  "Client_receipts do w bm start limit =
     (case do w start limit of
        (Inl e, w') \<Rightarrow> ((Some (Wrap ''requesting receipts'' e), bm), w')
      | (Inr resps, w') \<Rightarrow>
          (case find (\<lambda>r. Exists (rcr_Error r)) resps of
             Some r \<Rightarrow> ((Some (Rpc ''eth_getBlockReceipts'' (rcr_Error r)), bm), w')
           | None \<Rightarrow> (receipts_loop start limit bm resps, w')))"

text \<open>
  \<open>logResult\<close> embeds a pointer to the log, nil when the reply carries no field of it.
\<close>

record logResult =
  lr_Log :: "Log option"
  lr_BlockHash :: bytes
  lr_BlockNum :: u64
  lr_TxHash :: bytes
  lr_TxIdx :: u64
  lr_Removed :: bool

record logResp =
  lgr_Error :: Error
  lgr_Result :: "logResult list"

text \<open>
  The first loop of \<open>logs\<close>: the bounds check of each log and the grouping by block number
  and transaction index. The map \<open>logsByTx\<close> is a list of its entries in the order of
  their insertion.
\<close>

fun group_logs ::
  "u64 \<Rightarrow> u64 \<Rightarrow> (key \<times> logResult list) list \<Rightarrow> logResult list \<Rightarrow>
     err + (key \<times> logResult list) list" where
  "group_logs start limit logsByTx [] = Inr logsByTx"
| "group_logs start limit logsByTx (r # rs) =
     (let blockNum = lr_BlockNum r; txIdx = lr_TxIdx r; k = (blockNum, txIdx) in
      if blockNum < start \<or> blockNum \<ge> start + limit then
        Inl (LogsOutOfRange blockNum start limit)
      else
        case map_of logsByTx k of
          Some logs \<Rightarrow>
            group_logs start limit
              (map (\<lambda>(k', v). if k' = k then (k', logs @ [r]) else (k', v)) logsByTx) rs
        | None \<Rightarrow> group_logs start limit (logsByTx @ [(k, [r])]) rs)"

text \<open>
  \<open>tx.Logs.Add\<close> for each log of a group, in order; \<open>None\<close> when a log pointer is nil and
  the call dereferences it.
\<close>

fun add_logs :: "Log list \<Rightarrow> logResult list \<Rightarrow> Log list option" where
  "add_logs ls [] = Some ls"
| "add_logs ls (r # rs) =
     (case lr_Log r of None \<Rightarrow> None | Some l \<Rightarrow> add_logs (Logs_Add ls l) rs)"

text \<open>
  The second loop of \<open>logs\<close>, over the groups in the order in which \<open>range\<close> visits the map.
  A group is never empty when it comes from \<open>group_logs\<close>; reading \<open>logs[0]\<close> of an empty
  one would panic.
\<close>

fun logs_write :: "blockmap \<Rightarrow> (key \<times> logResult list) list \<Rightarrow> err option \<times> blockmap" where
  "logs_write bm [] = (None, bm)"
| "logs_write bm ((k, logs) # groups) =
     (case bm (fst k) of
        None \<Rightarrow> (Some BlockNotFound, bm)
      | Some b \<Rightarrow>
          (case logs of
             [] \<Rightarrow> (Some IndexOutOfRange, bm)
           | l0 # ls \<Rightarrow>
               let b1 = b\<lparr>Header := (Header b)\<lparr>Hash :=
                          Bytes_Write (Hash (Header b)) (lr_BlockHash l0)\<rparr>\<rparr>
               in
               case Block_Tx b1 (snd k) of
                 (b2, i) \<Rightarrow>
                   let tx = (Txs b2 ! i)\<lparr>PrecompHash :=
                              Bytes_Write (PrecompHash (Txs b2 ! i)) (lr_TxHash l0)\<rparr>
                   in
                   case add_logs (Logs tx) (l0 # ls) of
                     None \<Rightarrow> (Some NilDeref, bm)
                   | Some logs' \<Rightarrow>
                       logs_write
                         (bm(fst k \<mapsto> b2\<lparr>Txs := (Txs b2)[i := tx\<lparr>Logs := logs'\<rparr>]\<rparr>))
                         groups))"

text \<open>
  \<open>logs\<close>. The transport stands for the batch of the two calls, made with the selectors of
  the filter, and its reply is the decoded pair of responses. The order in which Go
  visits the groups of \<open>logsByTx\<close> is not specified: it is the parameter \<open>visit\<close>.
\<close>

definition Client_logs ::
  "((key \<times> logResult list) list \<Rightarrow> (key \<times> logResult list) list) \<Rightarrow>
   ('w, headerResp \<times> logResp) rpc \<Rightarrow> 'w \<Rightarrow> blockmap \<Rightarrow> u64 \<Rightarrow> u64 \<Rightarrow>
     (err option \<times> blockmap) \<times> 'w" where
  "Client_logs visit do w bm start limit =
     (let toBlock = start + limit - 1 in
      case do w start limit of
        (Inl e, w') \<Rightarrow> ((Some (Wrap ''making logs request'' e), bm), w')
      | (Inr (hresp, lresp), w') \<Rightarrow>
          if Exists (hr_Error hresp) then
            ((Some (Rpc ''eth_getLogs/eth_getBlockByNumber'' (lgr_Error lresp)), bm), w')
          else if Exists (lgr_Error lresp) then
            ((Some (Rpc ''eth_getLogs'' (lgr_Error lresp)), bm), w')
          else if hr_Header hresp = None then
            ((Some (MissingLogsBlock toBlock), bm), w')
          else
            case group_logs start limit [] (lgr_Result lresp) of
              Inl e \<Rightarrow> ((Some e, bm), w')
            | Inr logsByTx \<Rightarrow> (logs_write bm (visit logsByTx), w'))"

section \<open>Properties named by the claims\<close>




text \<open>
  \<open>cached c k j bs\<close>: the table holds, for the key \<open>k\<close>, a done segment with the blocks \<open>bs\<close>
  that has been read \<open>j\<close> times; no key has two entries and at most five are held.
\<close>

definition cached :: "cache \<Rightarrow> key \<Rightarrow> int \<Rightarrow> Block list \<Rightarrow> bool" where
  "cached c k j bs =
     ((k, \<lparr>seg_nreads = j, seg_done = True, seg_d = bs\<rparr>) \<in> set (c_segments c) \<and>
      distinct (cache_keys c) \<and> length (c_segments c) \<le> 5)"

text \<open>What \<open>cache.get\<close> makes of the result of the fetcher it has invoked.\<close>

definition fetched :: "Block list \<times> err option \<Rightarrow> Block list \<times> err option" where
  "fetched r = (case r of (blocks, None) \<Rightarrow> (blocks, None)
                        | (blocks, Some e) \<Rightarrow> ([], Some (Wrap ''cache get'' e)))"

text \<open>
  The two checks that \<open>receipts\<close> makes on one response, in the words of the claims: the
  reported block number is that of the first receipt; it is out of range when it is below
  \<open>start\<close> or above \<open>start + limit\<close>; a response passes when it is empty, or in range with
  a block of that number in the blockmap.
\<close>

definition receipt_out :: "u64 \<Rightarrow> u64 \<Rightarrow> receiptResp \<Rightarrow> bool" where
  "receipt_out start limit r =
     (rcr_Result r \<noteq> [] \<and>
      (rr_BlockNum (hd (rcr_Result r)) < start \<or>
       rr_BlockNum (hd (rcr_Result r)) > start + limit))"

definition receipt_pass :: "u64 \<Rightarrow> u64 \<Rightarrow> blockmap \<Rightarrow> receiptResp \<Rightarrow> bool" where
  "receipt_pass start limit bm r =
     (rcr_Result r = [] \<or>
      (start \<le> rr_BlockNum (hd (rcr_Result r)) \<and>
       rr_BlockNum (hd (rcr_Result r)) \<le> start + limit \<and>
       rr_BlockNum (hd (rcr_Result r)) \<in> dom bm))"

definition log_out :: "u64 \<Rightarrow> u64 \<Rightarrow> logResult \<Rightarrow> bool" where
  "log_out start limit r = (lr_BlockNum r < start \<or> lr_BlockNum r \<ge> start + limit)"



section \<open>Concrete inputs\<close>

text \<open>States and replies on which the theorems below are instantiated.\<close>

definition nh_warm :: NumHash where
  "nh_warm = \<lparr>nh_err = None, nh_once = True, nh_maxreads = 20, nh_nreads = 0,
     nh_Num = 100, nh_Hash = replicate 32 7\<rparr>"

definition nh_spent :: NumHash where
  "nh_spent = nh_warm\<lparr>nh_nreads := 20\<rparr>"

definition nh_failed :: NumHash where
  "nh_failed = NumHash_error nh_warm (Transport ''ws read'')"

definition latest_do :: "nat \<Rightarrow> (err + headerResp) \<times> nat" where
  "latest_do w =
     (Inr \<lparr>hr_Error = \<lparr>Code = 0, Message = []\<rparr>,
           hr_Header = Some \<lparr>Number = 90, Hash = replicate 32 9, Parent = replicate 32 8\<rparr>\<rparr>,
      Suc w)"

definition client_warm :: "unit Client" where
  "client_warm = \<lparr>nocache = False, d = False, urls = [\<lparr>parsed = (), provided = ''http://a''\<rparr>],
     wsurl = [], reqCounter = 0, pollDuration = 1000000000, lcache = nh_warm,
     bcache = \<lparr>c_maxreads = 20, c_segments = []\<rparr>,
     hcache = \<lparr>c_maxreads = 20, c_segments = []\<rparr>\<rparr>"

definition url_a :: "unit URL" where
  "url_a = \<lparr>parsed = (), provided = ''http://a''\<rparr>"

definition url_b :: "unit URL" where
  "url_b = \<lparr>parsed = (), provided = ''http://b''\<rparr>"

definition url_c :: "unit URL" where
  "url_c = \<lparr>parsed = (), provided = ''http://c''\<rparr>"

definition client_three :: "unit Client" where
  "client_three = client_warm\<lparr>urls := [url_a, url_b, url_c]\<rparr>"

text \<open>The counter three calls before it wraps: \<open>2^64 - 3\<close>.\<close>

definition client_wrap :: "unit Client" where
  "client_wrap = client_three\<lparr>reqCounter := 18446744073709551613\<rparr>"

text \<open>Blocks and transports for the fetchers; the world counts the requests.\<close>

definition blk :: "u64 \<Rightarrow> bytes \<Rightarrow> bytes \<Rightarrow> Block" where
  "blk n h p = \<lparr>Header = \<lparr>Number = n, Hash = h, Parent = p\<rparr>, Txs = []\<rparr>"

definition no_Error :: Error where
  "no_Error = \<lparr>Code = 0, Message = []\<rparr>"

definition reply_of :: "Block list \<Rightarrow> blockResp list" where
  "reply_of bs = map (\<lambda>b. \<lparr>br_Error = no_Error, br_Block = Some b\<rparr>) bs"

text \<open>Blocks 100 and 101, linked.\<close>

definition good_do :: "(nat, blockResp list) rpc" where
  "good_do w start limit = (Inr (reply_of [blk 100 [1] [0], blk 101 [2] [1]]), Suc w)"





text \<open>A getter that succeeds with one block and counts its invocations in the world.\<close>

definition count_getter :: "nat getter" where
  "count_getter w start limit = (([blk start [1] [0]], None), Suc w)"

definition todo :: segment where
  "todo = \<lparr>seg_nreads = 1, seg_done = False, seg_d = []\<rparr>"

text \<open>Five segments, with the starts 10, 20, 30, 40 and 50.\<close>

definition full_cache :: cache where
  "full_cache = \<lparr>c_maxreads = 20, c_segments =
     [((10, 1), todo), ((20, 1), todo), ((30, 1), todo), ((40, 1), todo), ((50, 1), todo)]\<rparr>"

definition small_cache :: cache where
  "small_cache = \<lparr>c_maxreads = 3, c_segments = [((10, 1), todo)]\<rparr>"

text \<open>Receipts, logs and replies for the enrichment theorems.\<close>

definition zero_receipt :: receiptResult where
  "zero_receipt = \<lparr>rr_BlockHash = [], rr_BlockNum = 0, rr_TxHash = [], rr_TxIdx = 0,
     rr_TxType = 0, rr_TxFrom = [], rr_TxTo = [], rr_Status = 0, rr_GasUsed = 0,
     rr_EffectiveGasPrice = 0, rr_Logs = [], rr_ContractAddress = [],
     rr_L1BaseFeeScalar = None, rr_L1BlobBaseFee = None, rr_L1BlobBaseFeeScalar = None,
     rr_L1Fee = None, rr_L1GasPrice = None, rr_L1GasUsed = None\<rparr>"

text \<open>A receipt with a block number, a transaction index and a transaction hash.\<close>

definition rcpt :: "u64 \<Rightarrow> u64 \<Rightarrow> bytes \<Rightarrow> receiptResult" where
  "rcpt n i h = zero_receipt\<lparr>rr_BlockNum := n, rr_TxIdx := i, rr_TxHash := h, rr_BlockHash := [7]\<rparr>"

definition receipts_of :: "receiptResult list \<Rightarrow> receiptResp" where
  "receipts_of rs = \<lparr>rcr_Error = no_Error, rcr_Result = rs\<rparr>"

text \<open>The blockmap of the window \<open>start = 10\<close>, \<open>limit = 2\<close>.\<close>

definition bm_ten :: blockmap where
  "bm_ten = [10 \<mapsto> blk 10 [1] [0], 11 \<mapsto> blk 11 [2] [1]]"

definition receipts_do :: "receiptResp list \<Rightarrow> (nat, receiptResp list) rpc" where
  "receipts_do resps w start limit = (Inr resps, Suc w)"

definition lg :: "u64 \<Rightarrow> u64 \<Rightarrow> logResult" where
  "lg n i = \<lparr>lr_Log = Some \<lparr>log_Idx = 0, Address = [], Topics = [], Data = []\<rparr>,
     lr_BlockHash = [7], lr_BlockNum = n, lr_TxHash = [8], lr_TxIdx = i, lr_Removed = False\<rparr>"

definition header_ok :: headerResp where
  "header_ok = \<lparr>hr_Error = no_Error,
     hr_Header = Some \<lparr>Number = 11, Hash = [2], Parent = [1]\<rparr>\<rparr>"

definition header_err :: headerResp where
  "header_err = \<lparr>hr_Error = \<lparr>Code = - 32000, Message = ''header not found''\<rparr>, hr_Header = None\<rparr>"

definition logs_do :: "headerResp \<Rightarrow> logResult list \<Rightarrow> (nat, headerResp \<times> logResp) rpc" where
  "logs_do h ls w start limit = (Inr (h, \<lparr>lgr_Error = no_Error, lgr_Result = ls\<rparr>), Suc w)"

definition only_blocks :: Filter where
  "only_blocks = \<lparr>UseBlocks = True, UseHeaders = False, UseReceipts = False,
     UseLogs = False, UseTraces = False\<rparr>"

definition no_headers :: "(nat, headerResp list) rpc" where
  "no_headers w start limit = (Inl (Transport ''not called''), w)"

text \<open>
  Two calls of \<open>Get\<close> for the blocks of the window \<open>start = 100\<close>, \<open>limit = 2\<close>, one after the
  other: the result of the second call and the number of requests that both have issued.
\<close>

definition Get_twice :: "'u Client \<Rightarrow> (Block list \<times> err option) \<times> nat" where
  "Get_twice c =
     (case Get_primary sort_desc good_do no_headers c only_blocks 0 100 2 of
        (r1, c1, w1) \<Rightarrow>
          (case Get_primary sort_desc good_do no_headers c1 only_blocks w1 100 2 of
             (r2, c2, w2) \<Rightarrow> (r2, w2)))"

section \<open>Theorems\<close>

subsection \<open>NumHash.update and the monotonic tip\<close>

lemma update_Num_mono: "nh_Num nh \<le> nh_Num (NumHash_update nh n h)"
  by (auto simp: NumHash_update_def not_le intro: less_imp_le)

lemma updates_Num_mono: "nh_Num nh \<le> nh_Num (updates nh us)"
proof (induction us arbitrary: nh)
  case Nil
  show ?case by simp
next
  case (Cons u us)
  obtain n h where u: "u = (n, h)" by (cases u)
  have "nh_Num nh \<le> nh_Num (NumHash_update nh n h)" by (rule update_Num_mono)
  also have "\<dots> \<le> nh_Num (updates (NumHash_update nh n h) us)" by (rule Cons.IH)
  finally show ?case by (simp add: u)
qed

lemma nh_apply_decrease:
  assumes "nh_Num (nh_apply nh op) < nh_Num nh"
  shows "\<exists>n. op = OpGet n \<and> expires nh n"
proof (cases op)
  case (OpError e)
  with assms show ?thesis by (simp add: NumHash_error_def)
next
  case (OpUpdate n h)
  with assms update_Num_mono [of nh n h] show ?thesis by simp
next
  case (OpGet n)
  with assms show ?thesis
    by (auto simp: NumHash_get_def expires_def Let_def not_less split: if_splits)
qed

lemma expires_reset:
  "expires nh n \<Longrightarrow>
     NumHash_get nh n = ((0, [], False), nh\<lparr>nh_nreads := 0, nh_Num := 0, nh_Hash := []\<rparr>)"
  by (auto simp: NumHash_get_def expires_def Bytes_Write_def not_less)

text \<open>
  C6. \<open>update n h\<close> leaves num, hash and nreads (the whole cache) as they are when
  \<open>n \<le> num\<close>; when \<open>n > num\<close> it sets num to \<open>n\<close>, overwrites the hash with \<open>h\<close> and resets
  nreads to 0. Hence the cached num never decreases along a sequence of updates. Among
  all operations on the cache (error, update, get), the only one that lowers num is the
  max-reads expiry inside \<open>get\<close>, and that one sets num to 0 and clears the hash.
\<close>

theorem NumHash_update_monotonic:
  "(n \<le> nh_Num nh \<longrightarrow> NumHash_update nh n h = nh) \<and>
   (nh_Num nh < n \<longrightarrow>
      NumHash_update nh n h = nh\<lparr>nh_nreads := 0, nh_Num := n, nh_Hash := h\<rparr>) \<and>
   nh_Num nh \<le> nh_Num (updates nh us) \<and>
   (nh_Num (nh_apply nh op) < nh_Num nh \<longrightarrow>
      (\<exists>m. op = OpGet m \<and> expires nh m) \<and>
      nh_Num (nh_apply nh op) = 0 \<and> nh_Hash (nh_apply nh op) = []) \<and>
   (nh_Num nh \<noteq> 0 \<and> nh_Num (nh_apply nh op) = 0 \<longrightarrow>
      (\<exists>m. op = OpGet m \<and> expires nh m) \<and> nh_Hash (nh_apply nh op) = [])"
proof -
  have a: "n \<le> nh_Num nh \<longrightarrow> NumHash_update nh n h = nh"
    by (simp add: NumHash_update_def)
  have b: "nh_Num nh < n \<longrightarrow>
      NumHash_update nh n h = nh\<lparr>nh_nreads := 0, nh_Num := n, nh_Hash := h\<rparr>"
    by (auto simp: NumHash_update_def Bytes_Write_def not_le)
  have c: "nh_Num nh \<le> nh_Num (updates nh us)"
    by (rule updates_Num_mono)
  have d: "(\<exists>m. op = OpGet m \<and> expires nh m) \<and>
      nh_Num (nh_apply nh op) = 0 \<and> nh_Hash (nh_apply nh op) = []"
    if lt: "nh_Num (nh_apply nh op) < nh_Num nh"
  proof -
    from nh_apply_decrease [OF lt] obtain m where m: "op = OpGet m" "expires nh m"
      by blast
    from expires_reset [OF m(2)] m(1) show ?thesis
      using m(2) by auto
  qed
  have e: "(\<exists>m. op = OpGet m \<and> expires nh m) \<and> nh_Hash (nh_apply nh op) = []"
    if z: "nh_Num nh \<noteq> 0 \<and> nh_Num (nh_apply nh op) = 0"
  proof -
    from z have "nh_Num (nh_apply nh op) < nh_Num nh"
      by (simp add: word_neq_0_conv)
    from d [OF this] show ?thesis by blast
  qed
  from a b c d e show ?thesis by blast
qed

theorem NumHash_update_monotonic_witness:
  "NumHash_update nh_warm 50 [1] = nh_warm \<and>
   NumHash_update nh_warm 101 [1] = nh_warm\<lparr>nh_nreads := 0, nh_Num := 101, nh_Hash := [1]\<rparr> \<and>
   nh_Num nh_warm \<le> nh_Num (updates nh_warm [(99, [1]), (101, [2]), (100, [3])]) \<and>
   nh_Num (nh_apply nh_spent (OpGet 50)) < nh_Num nh_spent \<and>
   expires nh_spent 50 \<and>
   nh_Num (nh_apply nh_spent (OpGet 50)) = 0 \<and>
   nh_Hash (nh_apply nh_spent (OpGet 50)) = []"
proof -
  note a = NumHash_update_monotonic [where nh = nh_warm and n = 50 and h = "[1]"
      and us = "[(99, [1]), (101, [2]), (100, [3])]" and op = "OpGet 50"]
  note b = NumHash_update_monotonic [where nh = nh_warm and n = 101 and h = "[1]"
      and us = "[]" and op = "OpGet 50"]
  note c = NumHash_update_monotonic [where nh = nh_spent and n = 50 and h = "[1]"
      and us = "[]" and op = "OpGet 50"]
  have h1: "(50::u64) \<le> nh_Num nh_warm" "nh_Num nh_warm < (101::u64)"
    by (simp_all add: nh_warm_def)
  have h2: "nh_Num (nh_apply nh_spent (OpGet 50)) < nh_Num nh_spent"
    by (simp add: nh_spent_def nh_warm_def NumHash_get_def)
  have h3: "expires nh_spent 50"
    by (simp add: expires_def nh_spent_def nh_warm_def)
  from a b c h1 h2 h3 show ?thesis by simp
qed

subsection \<open>NumHash.get and Latest\<close>

lemma copy_into_length: "length (copy_into dst src) = length dst"
  by (simp add: copy_into_def)

lemma copy_into_same: "length src = length dst \<Longrightarrow> copy_into dst src = src"
  by (simp add: copy_into_def)

lemma get_hit_iff:
  "snd (snd (fst (NumHash_get nh n))) \<longleftrightarrow>
     nh_err nh = None \<and> 0 < n \<and> n \<le> nh_Num nh \<and> nh_nreads nh < nh_maxreads nh"
  by (auto simp: NumHash_get_def Let_def not_less not_le word_neq_0_conv)

lemma get_hit:
  assumes "nh_err nh = None" "0 < n" "n \<le> nh_Num nh" "nh_nreads nh < nh_maxreads nh"
  shows "NumHash_get nh n =
     ((nh_Num nh, copy_into (replicate 32 0) (nh_Hash nh), True),
      nh\<lparr>nh_nreads := nh_nreads nh + 1\<rparr>)"
  using assms by (auto simp: NumHash_get_def Let_def not_less not_le)

lemma get_pending:
  "nh_err nh \<noteq> None \<Longrightarrow>
     NumHash_get nh n = ((0, [], False), nh\<lparr>nh_err := None, nh_once := False\<rparr>)"
  by (simp add: NumHash_get_def)

text \<open>
  C3. \<open>get n\<close> returns the cached tip (its third result is true) if and only if no error
  is pending, \<open>n > 0\<close>, \<open>num \<ge> n\<close> and \<open>nreads < maxreads\<close>. On a hit it returns the cached
  number and a 32-byte copy of the cached hash (equal to it when the hash has 32 bytes)
  and increments nreads. With an error pending the call is a miss that clears the error and
  resets the once flag, as the call after \<open>error e\<close> shows. \<open>Latest\<close> with \<open>n = 0\<close> issues
  the request whatever the cache holds (the world moves by exactly one call of the
  transport) and its result is the one of that request.
\<close>

theorem NumHash_get_hit_iff:
  "(snd (snd (fst (NumHash_get nh n))) \<longleftrightarrow>
      nh_err nh = None \<and> 0 < n \<and> n \<le> nh_Num nh \<and> nh_nreads nh < nh_maxreads nh) \<and>
   (nh_err nh = None \<and> 0 < n \<and> n \<le> nh_Num nh \<and> nh_nreads nh < nh_maxreads nh \<longrightarrow>
      NumHash_get nh n =
        ((nh_Num nh, copy_into (replicate 32 0) (nh_Hash nh), True),
         nh\<lparr>nh_nreads := nh_nreads nh + 1\<rparr>) \<and>
      length (copy_into (replicate 32 0) (nh_Hash nh)) = 32 \<and>
      (length (nh_Hash nh) = 32 \<longrightarrow> copy_into (replicate 32 0) (nh_Hash nh) = nh_Hash nh)) \<and>
   (nh_err nh \<noteq> None \<longrightarrow>
      NumHash_get nh n = ((0, [], False), nh\<lparr>nh_err := None, nh_once := False\<rparr>)) \<and>
   NumHash_get (NumHash_error nh e) n =
     ((0, [], False), nh\<lparr>nh_nreads := 0, nh_err := None, nh_once := False\<rparr>) \<and>
   snd (snd (Latest do c w 0)) = snd (do w) \<and>
   fst (Latest do c w 0) =
     (case fst (do w) of
        Inl e \<Rightarrow> Inl (Wrap ''unable request latest'' e)
      | Inr hresp \<Rightarrow>
          if Exists (hr_Error hresp) then
            Inl (Rpc ''eth_getBlockByNumber/latest'' (hr_Error hresp))
          else (case hr_Header hresp of
                  None \<Rightarrow> Inl NilDeref
                | Some hdr \<Rightarrow> Inr (Number hdr, Hash hdr)))"
proof -
  have g0: "\<And>x. \<exists>nh'. NumHash_get x 0 = ((0, [], False), nh')"
    by (simp add: NumHash_get_def)
  obtain nh' where nh': "NumHash_get ((lcache c)\<lparr>nh_once := True\<rparr>) 0 = ((0, [], False), nh')"
    using g0 by blast
  have L1: "snd (snd (Latest do c w 0)) = snd (do w)"
    by (simp add: Latest_def nh' split: prod.splits sum.splits option.splits)
  have L2: "fst (Latest do c w 0) =
     (case fst (do w) of
        Inl e \<Rightarrow> Inl (Wrap ''unable request latest'' e)
      | Inr hresp \<Rightarrow>
          if Exists (hr_Error hresp) then
            Inl (Rpc ''eth_getBlockByNumber/latest'' (hr_Error hresp))
          else (case hr_Header hresp of
                  None \<Rightarrow> Inl NilDeref
                | Some hdr \<Rightarrow> Inr (Number hdr, Hash hdr)))"
    by (simp add: Latest_def nh' split: prod.splits sum.splits option.splits)
  have E: "NumHash_get (NumHash_error nh e) n =
     ((0, [], False), nh\<lparr>nh_nreads := 0, nh_err := None, nh_once := False\<rparr>)"
    by (simp add: NumHash_get_def NumHash_error_def)
  show ?thesis
    using get_hit_iff [of nh n] get_hit [of nh n] get_pending [of nh n] E L1 L2
      copy_into_length [of "replicate 32 0" "nh_Hash nh"]
      copy_into_same [of "nh_Hash nh" "replicate 32 0"]
    by simp
qed

theorem NumHash_get_hit_iff_witness:
  "NumHash_get nh_warm 50 = ((100, replicate 32 7, True), nh_warm\<lparr>nh_nreads := 1\<rparr>) \<and>
   \<not> snd (snd (fst (NumHash_get nh_spent 50))) \<and>
   NumHash_get nh_failed 50 =
     ((0, [], False), nh_warm\<lparr>nh_nreads := 0, nh_err := None, nh_once := False\<rparr>) \<and>
   fst (Latest latest_do client_warm 0 0) = Inr (90, replicate 32 9) \<and>
   snd (snd (Latest latest_do client_warm 0 0)) = 1"
proof -
  note a = NumHash_get_hit_iff [where nh = nh_warm and n = 50 and e = "Transport ''ws read''"
      and do = latest_do and c = client_warm and w = 0]
  note b = NumHash_get_hit_iff [where nh = nh_spent and n = 50 and e = "Transport ''ws read''"
      and do = latest_do and c = client_warm and w = 0]
  have h: "nh_err nh_warm = None \<and> (0::u64) < 50 \<and> 50 \<le> nh_Num nh_warm \<and>
      nh_nreads nh_warm < nh_maxreads nh_warm \<and> length (nh_Hash nh_warm) = 32"
    by (simp add: nh_warm_def)
  have 1: "NumHash_get nh_warm 50 = ((100, replicate 32 7, True), nh_warm\<lparr>nh_nreads := 1\<rparr>)"
    using a h by (simp add: nh_warm_def)
  have 2: "\<not> snd (snd (fst (NumHash_get nh_spent 50)))"
    using b by (simp add: nh_spent_def nh_warm_def)
  have 3: "NumHash_get nh_failed 50 =
     ((0, [], False), nh_warm\<lparr>nh_nreads := 0, nh_err := None, nh_once := False\<rparr>)"
    using a by (simp add: nh_failed_def)
  have 4: "fst (Latest latest_do client_warm 0 0) = Inr (90, replicate 32 9)"
    using a by (simp add: latest_do_def Exists_def)
  have 5: "snd (snd (Latest latest_do client_warm 0 0)) = 1"
    using a by (simp add: latest_do_def)
  from 1 2 3 4 5 show ?thesis by blast
qed

subsection \<open>Round robin over the endpoints\<close>

lemma shift_mod_le:
  fixes t N i j :: nat
  assumes "i \<le> j" "j < N" "(t + i) mod N = (t + j) mod N"
  shows "i = j"
proof -
  have "N dvd (t + j) - (t + i)"
    using assms(1,3) mod_eq_dvd_iff_nat [of "t + i" "t + j" N] by simp
  then have "N dvd j - i" by simp
  moreover have "j - i < N" using assms(2) by simp
  ultimately have "j - i = 0"
    using nat_dvd_not_less [of "j - i" N] by auto
  with assms(1) show ?thesis by simp
qed

lemma inj_shift_mod:
  fixes t N :: nat
  shows "inj_on (\<lambda>j. (t + j) mod N) {0..<N}"
proof (rule inj_onI)
  fix i j assume i: "i \<in> {0..<N}" and j: "j \<in> {0..<N}" and e: "(t + i) mod N = (t + j) mod N"
  show "i = j"
  proof (cases "i \<le> j")
    case True
    with j e show ?thesis using shift_mod_le [of i j N t] by simp
  next
    case False
    with i e show ?thesis using shift_mod_le [of j i N t] by simp
  qed
qed

lemma image_shift_mod:
  fixes t N :: nat
  shows "(\<lambda>j. (t + j) mod N) ` {0..<N} = {0..<N}"
proof (rule endo_inj_surj)
  show "finite {0..<N}" by simp
  show "(\<lambda>j. (t + j) mod N) ` {0..<N} \<subseteq> {0..<N}" by auto
  show "inj_on (\<lambda>j. (t + j) mod N) {0..<N}" by (rule inj_shift_mod)
qed

lemma img_shift_mod:
  fixes t N :: nat
  shows "image_mset (\<lambda>j. (t + j) mod N) (mset_set {0..<N}) = mset_set {0..<N}"
proof -
  have "image_mset (\<lambda>j. (t + j) mod N) (mset_set {0..<N}) =
      mset_set ((\<lambda>j. (t + j) mod N) ` {0..<N})"
    by (rule image_mset_mset_set [OF inj_shift_mod])
  then show ?thesis by (simp only: image_shift_mod)
qed

lemma upt_window:
  fixes N k :: nat
  shows "[0..<Suc k * N] = [0..<k * N] @ map (\<lambda>j. k * N + j) [0..<N]"
proof -
  have "[0..<k * N + N] = [0..<k * N] @ [k * N..<k * N + N]"
    by (rule upt_add_eq_append) simp
  moreover have "[k * N..<k * N + N] = map (\<lambda>j. k * N + j) [0..<N]"
    using map_add_upt [of "k * N" N] by (simp add: add.commute)
  ultimately show ?thesis by (simp add: add.commute)
qed

lemma img_window:
  fixes t N k :: nat
  shows "image_mset (\<lambda>j. (t + j) mod N) (mset_set {0..<k * N}) =
     repeat_mset k (mset_set {0..<N})"
proof (induction k)
  case 0
  show ?case by simp
next
  case (Suc k)
  have "mset [0..<Suc k * N] = mset ([0..<k * N] @ map (\<lambda>j. k * N + j) [0..<N])"
    by (simp only: upt_window)
  then have split: "mset_set {0..<Suc k * N} =
      mset_set {0..<k * N} + image_mset (\<lambda>j. k * N + j) (mset_set {0..<N})"
    by simp
  have "image_mset (\<lambda>j. (t + j) mod N) (mset_set {0..<Suc k * N}) =
      image_mset (\<lambda>j. (t + j) mod N) (mset_set {0..<k * N}) +
      image_mset (\<lambda>j. ((t + k * N) + j) mod N) (mset_set {0..<N})"
    by (simp only: split image_mset_union image_mset.compositionality o_def add.assoc)
  also have "\<dots> = repeat_mset k (mset_set {0..<N}) + mset_set {0..<N}"
    by (simp only: Suc.IH img_shift_mod)
  finally show ?case by simp
qed

lemma NextURL_index:
  assumes "0 < length (urls c)" "length (urls c) < 2 ^ 64"
  shows "NextURL c =
     (Inr (urls c ! (unat (reqCounter c + 1) mod length (urls c))),
      c\<lparr>reqCounter := reqCounter c + 1\<rparr>)"
proof -
  have "unat (of_nat (length (urls c)) :: u64) = length (urls c)"
    using assms(2) by (simp add: unat_of_nat)
  then have "unat ((reqCounter c + 1) mod of_nat (length (urls c))) =
      unat (reqCounter c + 1) mod length (urls c)"
    by (simp add: unat_mod)
  with assms(1) show ?thesis by (simp add: NextURL_def Let_def)
qed

lemma NextURLs_window:
  assumes "0 < length (urls c)" "length (urls c) < 2 ^ 64" "unat (reqCounter c) + n < 2 ^ 64"
  shows "NextURLs n c =
     map (\<lambda>j. Inr (urls c ! ((unat (reqCounter c) + 1 + j) mod length (urls c)))) [0..<n]"
  using assms
proof (induction n arbitrary: c)
  case 0
  show ?case by simp
next
  case (Suc n)
  let ?c = "c\<lparr>reqCounter := reqCounter c + 1\<rparr>"
  have u: "unat (reqCounter c + 1) = unat (reqCounter c) + 1"
    using Suc.prems(3) by (simp add: unat_word_ariths)
  have ih: "NextURLs n ?c =
     map (\<lambda>j. Inr (urls ?c ! ((unat (reqCounter ?c) + 1 + j) mod length (urls ?c)))) [0..<n]"
    using Suc.prems u by (intro Suc.IH) simp_all
  have "[0..<Suc n] = 0 # map Suc [0..<n]"
    by (simp add: upt_conv_Cons map_Suc_upt del: upt_Suc)
  then show ?case
    using NextURL_index [OF Suc.prems(1,2)] ih u
    by (simp add: o_def del: upt_Suc)
qed

lemma image_repeat_mset: "image_mset f (repeat_mset k M) = repeat_mset k (image_mset f M)"
  by (induction k) simp_all

lemma count_round_robin:
  assumes "0 < length (urls c)" "length (urls c) < 2 ^ 64"
      "unat (reqCounter c) + k * length (urls c) < 2 ^ 64"
  shows "count_list (NextURLs (k * length (urls c)) c) (Inr u) = k * count_list (urls c) u"
proof -
  let ?N = "length (urls c)"
  let ?t = "unat (reqCounter c) + 1"
  have "mset (NextURLs (k * ?N) c) =
      image_mset (\<lambda>i. Inr (urls c ! i))
        (image_mset (\<lambda>j. (?t + j) mod ?N) (mset_set {0..<k * ?N}))"
    unfolding NextURLs_window [OF assms]
    by (simp add: image_mset.compositionality o_def)
  also have "\<dots> = image_mset (\<lambda>i. Inr (urls c ! i)) (repeat_mset k (mset_set {0..<?N}))"
    by (simp only: img_window)
  also have "\<dots> = repeat_mset k (mset (map Inr (map (\<lambda>i. urls c ! i) [0..<?N])))"
    by (simp add: image_repeat_mset image_mset.compositionality o_def)
  also have "\<dots> = repeat_mset k (mset (map Inr (urls c)))"
    by (simp only: map_nth)
  finally have m: "mset (NextURLs (k * ?N) c) = repeat_mset k (mset (map Inr (urls c)))" .
  have cm: "count_list (map Inr xs) (Inr u :: err + 'a URL) = count_list xs u" for xs
    by (induction xs) auto
  have "count_list (NextURLs (k * ?N) c) (Inr u) = count (mset (NextURLs (k * ?N) c)) (Inr u)"
    by (simp only: count_mset)
  also have "\<dots> = k * count (mset (map Inr (urls c))) (Inr u :: err + 'a URL)"
    by (simp only: m count_repeat_mset)
  also have "\<dots> = k * count_list (urls c) u"
    by (simp only: count_mset cm)
  finally show ?thesis .
qed


lemma urls_distinct: "url_a \<noteq> url_b" "url_b \<noteq> url_c" "url_a \<noteq> url_c"
  by (simp_all add: url_a_def url_b_def url_c_def)

text \<open>
  The claim C8 as stated fails when the 64-bit counter wraps: with three endpoints and the
  counter at \<open>2^64 - 3\<close>, the next three calls return the third endpoint and then the
  first one twice, and never the second.
\<close>

theorem NextURL_wrap_counterexample:
  "length (urls client_wrap) = 3 \<and>
   NextURLs (1 * 3) client_wrap = [Inr url_c, Inr url_a, Inr url_a] \<and>
   count_list (NextURLs (1 * 3) client_wrap) (Inr url_b) = 0 \<and>
   count_list (urls client_wrap) url_b = 1"
  by (simp add: client_wrap_def client_three_def client_warm_def NextURL_def Let_def
      numeral_3_eq_3 urls_distinct urls_distinct [symmetric])

text \<open>
  C8 (amended). For a client with \<open>N \<ge> 1\<close> endpoints, \<open>k * N\<close> consecutive sequential calls
  of \<open>NextURL\<close> during which the counter does not wrap around (\<open>counter + k * N < 2^64\<close>)
  return every endpoint exactly \<open>k\<close> times (\<open>k\<close> times for each position it has in the
  list), and each call increments the counter once and returns
  \<open>urls[counter mod N]\<close> for the incremented counter.
\<close>

theorem NextURL_round_robin:
  assumes "0 < length (urls c)" "length (urls c) < 2 ^ 64"
      "unat (reqCounter c) + k * length (urls c) < 2 ^ 64"
  shows "count_list (NextURLs (k * length (urls c)) c) (Inr u) = k * count_list (urls c) u \<and>
    NextURL c =
     (Inr (urls c ! (unat (reqCounter c + 1) mod length (urls c))),
      c\<lparr>reqCounter := reqCounter c + 1\<rparr>)"
  using count_round_robin [OF assms] NextURL_index [OF assms(1,2)] by simp

theorem NextURL_round_robin_witness:
  "0 < length (urls client_three) \<and> length (urls client_three) < 2 ^ 64 \<and>
   unat (reqCounter client_three) + 2 * length (urls client_three) < 2 ^ 64 \<and>
   count_list (NextURLs 6 client_three) (Inr url_b) = 2 \<and>
   fst (NextURL client_three) = Inr url_b"
proof -
  have h: "0 < length (urls client_three)" "length (urls client_three) < 2 ^ 64"
    "unat (reqCounter client_three) + 2 * length (urls client_three) < 2 ^ 64"
    by (simp_all add: client_three_def client_warm_def)
  have n: "2 * length (urls client_three) = 6" "count_list (urls client_three) url_b = 1"
    by (simp_all add: client_three_def client_warm_def urls_distinct urls_distinct [symmetric])
  from NextURL_round_robin [OF h, of url_b] h n show ?thesis
    by (simp add: client_three_def client_warm_def)
qed

subsection \<open>New and the feature flags\<close>

lemma New_loop_flags:
  "New_loop parse ps (us, dbg, nc) = Some (us', dbg', nc') \<Longrightarrow> ps \<noteq> [] \<Longrightarrow>
     dbg' = Contains (last ps) ''debug'' \<and> nc' = Contains (last ps) ''nocache''"
proof (induction ps arbitrary: us dbg nc)
  case Nil
  then show ?case by simp
next
  case (Cons p ps)
  from Cons.prems(1) obtain u where u: "MustURL parse p = Some u"
    and r: "New_loop parse ps (us @ [u], Contains p ''debug'', Contains p ''nocache'') =
        Some (us', dbg', nc')"
    by (auto split: option.splits)
  show ?case
  proof (cases "ps = []")
    case True
    with r show ?thesis by simp
  next
    case False
    from Cons.IH [OF r False] False show ?thesis by simp
  qed
qed

lemma good_blocks_any:
  "Client_blocks good_do w 100 2 = (([blk 100 [1] [0], blk 101 [2] [1]], None), Suc w)"
  by (simp add: Client_blocks_def good_do_def reply_of_def no_Error_def Exists_def decoded_def
      validate_def Num_def blk_def Block_Hash_def Let_def upt_conv_Cons)

text \<open>
  C4. \<open>New\<close> assigns \<open>debug\<close> and \<open>nocache\<close> anew for each provided string
  (\<open>New_loop_flags\<close>: the client's flags are those of the last string). A first string
  that contains both markers, followed by one that contains neither, gives a client with
  both flags off, and the second of two \<open>Get\<close> calls of that client for the same window is
  served from the range cache: both calls together issue one request. The same two
  strings in the other order give both flags on, and a request for each call.
\<close>

theorem New_flags_of_first_url_lost:
  "Contains ''http://a/?nocache&debug'' ''nocache'' \<and>
   Contains ''http://a/?nocache&debug'' ''debug'' \<and>
   map_option nocache (New Some [''http://a/?nocache&debug'', ''http://b'']) = Some False \<and>
   map_option d (New Some [''http://a/?nocache&debug'', ''http://b'']) = Some False \<and>
   map_option nocache (New Some [''http://b'', ''http://a/?nocache&debug'']) = Some True \<and>
   map_option d (New Some [''http://b'', ''http://a/?nocache&debug'']) = Some True \<and>
   map_option Get_twice (New Some [''http://a/?nocache&debug'', ''http://b'']) =
     Some (([blk 100 [1] [0], blk 101 [2] [1]], None), 1) \<and>
   map_option Get_twice (New Some [''http://b'', ''http://a/?nocache&debug'']) =
     Some (([blk 100 [1] [0], blk 101 [2] [1]], None), 2)"
  by (simp add: New_def MustURL_def Get_twice_def Get_primary_def only_blocks_def
      cache_get_def find_segment_def pruneMaxRead_def pruneSegments_def store_def
      new_segment_def good_blocks_any Let_def)

subsection \<open>validate, the fetchers and the segments of the range cache\<close>




















lemma Get_primary_error:
  assumes "UseBlocks flt \<or> UseHeaders flt"
    "Get_primary srt dob doh c flt w start limit = ((blocks, Some e), c', w')"
  shows "blocks = []"
proof (cases "UseBlocks flt")
  case True
  obtain bs e1 bc w1 where
    "cache_get srt (bcache c) (nocache c) (Client_blocks dob) w start limit = ((bs, e1), bc, w1)"
    by (metis prod.exhaust)
  with assms(2) True show ?thesis
    by (auto simp: Get_primary_def split: option.splits)
next
  case False
  obtain bs e1 hc w1 where
    "cache_get srt (hcache c) (nocache c) (Client_headers doh) w start limit = ((bs, e1), hc, w1)"
    by (metis prod.exhaust)
  with assms False show ?thesis
    by (auto simp: Get_primary_def split: option.splits)
qed

lemma nocache_direct:
  "cache_get srt c True f w start limit = (fst (f w start limit), c, snd (f w start limit))"
  by (simp add: cache_get_def split: prod.splits)









subsection \<open>The range cache: the segment cap and bounded reuse\<close>

lemma keys_pruneMaxRead:
  "cache_keys (pruneMaxRead c) =
     map fst (filter (\<lambda>(k, v). \<not> seg_nreads v \<ge> c_maxreads c) (c_segments c))"
  by (simp add: cache_keys_def pruneMaxRead_def)

lemma distinct_pruneMaxRead: "distinct (cache_keys c) \<Longrightarrow> distinct (cache_keys (pruneMaxRead c))"
  by (simp add: pruneMaxRead_def cache_keys_def distinct_map_filter)

lemma length_pruneMaxRead: "length (c_segments (pruneMaxRead c)) \<le> length (c_segments c)"
  by (simp add: pruneMaxRead_def)

lemma maxreads_pruneMaxRead [simp]: "c_maxreads (pruneMaxRead c) = c_maxreads c"
  by (simp add: pruneMaxRead_def)

lemma maxreads_pruneSegments [simp]: "c_maxreads (pruneSegments srt c) = c_maxreads c"
  by (simp add: pruneSegments_def Let_def)

lemma maxreads_store [simp]: "c_maxreads (store c k seg) = c_maxreads c"
  by (simp add: store_def)

lemma keys_store [simp]: "cache_keys (store c k seg) = cache_keys c"
  by (auto simp: cache_keys_def store_def split: prod.splits)

lemma length_store [simp]: "length (c_segments (store c k seg)) = length (c_segments c)"
  by (simp add: store_def)

lemma distinct_find_segment:
  assumes "distinct (cache_keys c)" "find_segment c k = (seg, c2)"
  shows "distinct (cache_keys c2) \<and> k \<in> set (cache_keys c2) \<and> c_maxreads c2 = c_maxreads c"
proof (cases "map_of (c_segments (pruneMaxRead c)) k")
  case None
  then have "k \<notin> set (cache_keys (pruneMaxRead c))"
    by (simp add: cache_keys_def map_of_eq_None_iff)
  with None assms distinct_pruneMaxRead [OF assms(1)] show ?thesis
    by (auto simp: find_segment_def Let_def cache_keys_def)
next
  case (Some sg)
  then have "k \<in> set (cache_keys (pruneMaxRead c))"
    by (auto simp: cache_keys_def dest: map_of_SomeD intro: rev_image_eqI)
  with Some assms distinct_pruneMaxRead [OF assms(1)] show ?thesis
    by (auto simp: find_segment_def Let_def)
qed

lemma pruneSegments_keys:
  assumes d: "distinct (cache_keys c)" and s: "sorts srt" and l: "5 < length (c_segments c)"
  shows "cache_keys (pruneSegments srt c) = filter (\<lambda>k. k \<in> set (take 5 (srt (cache_keys c)))) (cache_keys c)"
proof -
  let ?ks = "srt (cache_keys c)"
  from s have m: "mset ?ks = mset (cache_keys c)" by (simp add: sorts_def)
  then have dk: "distinct ?ks" using d mset_eq_imp_distinct_iff by blast
  from m have sk: "set ?ks = set (cache_keys c)" by (rule mset_eq_setD)
  have disj: "set (take 5 ?ks) \<inter> set (drop 5 ?ks) = {}"
    by (rule set_take_disj_set_drop_if_distinct [OF dk]) simp
  have un: "set (take 5 ?ks) \<union> set (drop 5 ?ks) = set ?ks"
    by (metis append_take_drop_id set_append)
  have "\<And>k. k \<in> set (cache_keys c) \<Longrightarrow> (k \<notin> set (drop 5 ?ks)) = (k \<in> set (take 5 ?ks))"
    using disj un sk by blast
  then have "filter (\<lambda>k. k \<notin> set (drop 5 ?ks)) (cache_keys c) =
      filter (\<lambda>k. k \<in> set (take 5 ?ks)) (cache_keys c)"
    by (intro filter_cong) auto
  moreover have "cache_keys (pruneSegments srt c) = filter (\<lambda>k. k \<notin> set (drop 5 ?ks)) (cache_keys c)"
    using l by (simp add: pruneSegments_def cache_keys_def Let_def filter_map o_def case_prod_unfold)
  ultimately show ?thesis by simp
qed

lemma pruneSegments_set:
  assumes d: "distinct (cache_keys c)" and s: "sorts srt" and l: "5 < length (c_segments c)"
  shows "set (cache_keys (pruneSegments srt c)) = set (take 5 (srt (cache_keys c)))"
proof -
  from s have "mset (srt (cache_keys c)) = mset (cache_keys c)" by (simp add: sorts_def)
  then have "set (srt (cache_keys c)) = set (cache_keys c)" by (rule mset_eq_setD)
  then have "set (take 5 (srt (cache_keys c))) \<subseteq> set (cache_keys c)"
    using set_take_subset by fastforce
  then show ?thesis
    unfolding pruneSegments_keys [OF d s l] by auto
qed

lemma distinct_pruneSegments:
  "distinct (cache_keys c) \<Longrightarrow> distinct (cache_keys (pruneSegments srt c))"
  by (simp add: pruneSegments_def cache_keys_def Let_def distinct_map_filter)

lemma pruneSegments_length:
  assumes d: "distinct (cache_keys c)" and s: "sorts srt" and l: "5 < length (c_segments c)"
  shows "length (c_segments (pruneSegments srt c)) = 5"
proof -
  let ?ks = "srt (cache_keys c)"
  from s have m: "mset ?ks = mset (cache_keys c)" by (simp add: sorts_def)
  then have dk: "distinct ?ks" using d mset_eq_imp_distinct_iff by blast
  from m have "length ?ks = length (cache_keys c)" by (rule mset_eq_length)
  with l have lk: "5 < length ?ks" by (simp add: cache_keys_def)
  have "length (cache_keys (pruneSegments srt c)) = card (set (cache_keys (pruneSegments srt c)))"
    using distinct_pruneSegments [OF d] by (simp add: distinct_card)
  also have "\<dots> = card (set (take 5 ?ks))" by (simp only: pruneSegments_set [OF d s l])
  also have "\<dots> = length (take 5 ?ks)" using dk by (simp add: distinct_card)
  also have "\<dots> = 5" using lk by simp
  finally show ?thesis by (simp add: cache_keys_def)
qed

lemma pruneSegments_le5:
  assumes "distinct (cache_keys c)" "sorts srt"
  shows "length (c_segments (pruneSegments srt c)) \<le> 5"
proof (cases "5 < length (c_segments c)")
  case True
  from pruneSegments_length [OF assms True] show ?thesis by simp
next
  case False
  then show ?thesis by (simp add: pruneSegments_def)
qed



lemma sorts_sort_desc: "sorts sort_desc"
proof -
  have "sorted_wrt (\<lambda>x y. fst y \<le> fst x) (rev (sort_key fst ks))" for ks :: "key list"
  proof -
    have "sorted (map fst (sort_key fst ks))" by (rule sorted_sort_key)
    then have "sorted_wrt (\<lambda>x y. fst x \<le> fst y) (sort_key fst ks)"
      by (simp only: sorted_map)
    then show ?thesis by (simp add: sorted_wrt_rev)
  qed
  then show ?thesis by (simp add: sorts_def sort_desc_def)
qed










lemma store_mem:
  "(k, v) \<in> set (c_segments c) \<Longrightarrow> (k, seg) \<in> set (c_segments (store c k seg))"
  by (force simp: store_def)

lemma cached_store:
  assumes "distinct (cache_keys c)" "length (c_segments c) \<le> 5" "k \<in> set (cache_keys c)"
  shows "cached (store c k \<lparr>seg_nreads = j, seg_done = True, seg_d = bs\<rparr>) k j bs"
proof -
  from assms(3) obtain v where "(k, v) \<in> set (c_segments c)"
    by (auto simp: cache_keys_def)
  from store_mem [OF this] assms(1,2) show ?thesis
    by (simp add: cached_def)
qed

lemma step_hit:
  assumes c: "cached c (start, limit) j bs" and j: "j < c_maxreads c"
  shows "cache_get srt c False f w start limit =
      ((bs, None),
       store (pruneMaxRead c) (start, limit) \<lparr>seg_nreads = j + 1, seg_done = True, seg_d = bs\<rparr>, w) \<and>
    cached (store (pruneMaxRead c) (start, limit)
      \<lparr>seg_nreads = j + 1, seg_done = True, seg_d = bs\<rparr>) (start, limit) (j + 1) bs"
proof -
  let ?k = "(start, limit)"
  let ?seg = "\<lparr>seg_nreads = j, seg_done = True, seg_d = bs\<rparr>"
  from c have m: "(?k, ?seg) \<in> set (c_segments c)" and d: "distinct (cache_keys c)"
    and l: "length (c_segments c) \<le> 5" by (simp_all add: cached_def)
  from m j have m1: "(?k, ?seg) \<in> set (c_segments (pruneMaxRead c))"
    by (simp add: pruneMaxRead_def)
  have d1: "distinct (cache_keys (pruneMaxRead c))" by (rule distinct_pruneMaxRead [OF d])
  have l1: "length (c_segments (pruneMaxRead c)) \<le> 5"
    using length_pruneMaxRead [of c] l by simp
  from m1 d1 have look: "map_of (c_segments (pruneMaxRead c)) ?k = Some ?seg"
    by (simp add: cache_keys_def)
  then have fs: "find_segment c ?k = (?seg, pruneMaxRead c)"
    by (simp add: find_segment_def Let_def)
  have ps: "pruneSegments srt (pruneMaxRead c) = pruneMaxRead c"
    using l1 by (simp add: pruneSegments_def)
  have g: "cache_get srt c False f w start limit =
      ((bs, None),
       store (pruneMaxRead c) ?k \<lparr>seg_nreads = j + 1, seg_done = True, seg_d = bs\<rparr>, w)"
    by (simp add: cache_get_def fs ps Let_def)
  from m1 have "?k \<in> set (cache_keys (pruneMaxRead c))"
    by (auto simp: cache_keys_def intro: rev_image_eqI)
  from cached_store [OF d1 l1 this] g show ?thesis by simp
qed

lemma step_miss:
  assumes c: "cached c (start, limit) j bs" and j: "c_maxreads c \<le> j"
  shows "map_of (c_segments (pruneMaxRead c)) (start, limit) = None \<and>
    fst (cache_get srt c False f w start limit) = fetched (fst (f w start limit)) \<and>
    snd (snd (cache_get srt c False f w start limit)) = snd (f w start limit)"
proof -
  let ?k = "(start, limit)"
  let ?seg = "\<lparr>seg_nreads = j, seg_done = True, seg_d = bs\<rparr>"
  from c have m: "(?k, ?seg) \<in> set (c_segments c)" and d: "distinct (cache_keys c)"
    by (simp_all add: cached_def)
  have "?k \<notin> set (cache_keys (pruneMaxRead c))"
  proof
    assume "?k \<in> set (cache_keys (pruneMaxRead c))"
    then obtain v where v: "(?k, v) \<in> set (c_segments c)" "\<not> c_maxreads c \<le> seg_nreads v"
      by (auto simp: cache_keys_def pruneMaxRead_def)
    from d m v(1) have "v = ?seg"
      by (metis cache_keys_def map_of_is_SomeI option.inject)
    with v(2) j show False by simp
  qed
  then have look: "map_of (c_segments (pruneMaxRead c)) ?k = None"
    by (simp add: cache_keys_def map_of_eq_None_iff)
  then have fs: "find_segment c ?k =
      (new_segment, (pruneMaxRead c)\<lparr>c_segments := c_segments (pruneMaxRead c) @ [(?k, new_segment)]\<rparr>)"
    by (simp add: find_segment_def Let_def)
  obtain bs' e' w'' where fw: "f w start limit = ((bs', e'), w'')" by (metis prod.exhaust)
  have "fst (cache_get srt c False f w start limit) = fetched (fst (f w start limit)) \<and>
    snd (snd (cache_get srt c False f w start limit)) = snd (f w start limit)"
    by (cases e') (simp_all add: cache_get_def fs fw Let_def new_segment_def fetched_def)
  with look show ?thesis by simp
qed

lemma step_first:
  assumes d: "distinct (cache_keys c)" and s: "sorts srt"
    and n: "map_of (c_segments (pruneMaxRead c)) (start, limit) = None"
    and fw: "f w start limit = ((bs, None), w1)"
    and r: "(start, limit) \<in> set (cache_keys (fst (snd (cache_get srt c False f w start limit))))"
  shows "fst (cache_get srt c False f w start limit) = (bs, None) \<and>
    snd (snd (cache_get srt c False f w start limit)) = w1 \<and>
    cached (fst (snd (cache_get srt c False f w start limit))) (start, limit) 1 bs \<and>
    c_maxreads (fst (snd (cache_get srt c False f w start limit))) = c_maxreads c"
proof -
  let ?c2 = "(pruneMaxRead c)\<lparr>c_segments := c_segments (pruneMaxRead c) @ [((start, limit), new_segment)]\<rparr>"
  let ?seg = "\<lparr>seg_nreads = 1, seg_done = True, seg_d = bs\<rparr>"
  from n have fs: "find_segment c (start, limit) = (new_segment, ?c2)"
    by (simp add: find_segment_def Let_def)
  have g: "cache_get srt c False f w start limit =
      ((bs, None), store (pruneSegments srt ?c2) (start, limit) ?seg, w1)"
    by (simp add: cache_get_def fs fw Let_def new_segment_def)
  from distinct_find_segment [OF d fs] have d2: "distinct (cache_keys ?c2)" by simp
  have d3: "distinct (cache_keys (pruneSegments srt ?c2))" by (rule distinct_pruneSegments [OF d2])
  have l3: "length (c_segments (pruneSegments srt ?c2)) \<le> 5" by (rule pruneSegments_le5 [OF d2 s])
  from r g have "(start, limit) \<in> set (cache_keys (pruneSegments srt ?c2))" by simp
  from cached_store [OF d3 l3 this, of 1 bs] g show ?thesis by simp
qed


lemma run:
  assumes "cached c (start, limit) j bs" "j \<le> c_maxreads c"
  shows "\<forall>i < length srts.
     (j + int i < c_maxreads c \<longrightarrow>
        fst (cache_gets srts c f w start limit ! i) = (bs, None) \<and>
        snd (snd (cache_gets srts c f w start limit ! i)) = w \<and>
        cached (fst (snd (cache_gets srts c f w start limit ! i))) (start, limit) (j + int i + 1) bs \<and>
        c_maxreads (fst (snd (cache_gets srts c f w start limit ! i))) = c_maxreads c) \<and>
     (j + int i = c_maxreads c \<longrightarrow>
        fst (cache_gets srts c f w start limit ! i) = fetched (fst (f w start limit)) \<and>
        snd (snd (cache_gets srts c f w start limit ! i)) = snd (f w start limit))"
  using assms
proof (induction srts arbitrary: c j)
  case Nil
  show ?case by simp
next
  case (Cons srt srts)
  obtain r c' w' where g: "cache_get srt c False f w start limit = (r, c', w')"
    by (metis prod.exhaust)
  have tr: "cache_gets (srt # srts) c f w start limit = (r, c', w') # cache_gets srts c' f w' start limit"
    by (simp add: g)
  show ?case
  proof (intro allI impI)
    fix i assume i: "i < length (srt # srts)"
    show "(j + int i < c_maxreads c \<longrightarrow>
        fst (cache_gets (srt # srts) c f w start limit ! i) = (bs, None) \<and>
        snd (snd (cache_gets (srt # srts) c f w start limit ! i)) = w \<and>
        cached (fst (snd (cache_gets (srt # srts) c f w start limit ! i))) (start, limit) (j + int i + 1) bs \<and>
        c_maxreads (fst (snd (cache_gets (srt # srts) c f w start limit ! i))) = c_maxreads c) \<and>
     (j + int i = c_maxreads c \<longrightarrow>
        fst (cache_gets (srt # srts) c f w start limit ! i) = fetched (fst (f w start limit)) \<and>
        snd (snd (cache_gets (srt # srts) c f w start limit ! i)) = snd (f w start limit))"
    proof (cases i)
      case 0
      show ?thesis
      proof (cases "j < c_maxreads c")
        case True
        from step_hit [OF Cons.prems(1) True, of srt f w] g 0 True show ?thesis
          by (auto simp: g)
      next
        case False
        with Cons.prems(2) have "c_maxreads c \<le> j" by simp
        from step_miss [OF Cons.prems(1) this, of srt f w] g 0 False show ?thesis
          by (auto simp: g)
      qed
    next
      case (Suc i')
      show ?thesis
      proof (cases "j < c_maxreads c")
        case True
        from step_hit [OF Cons.prems(1) True, of srt f w] g
        have c': "cached c' (start, limit) (j + 1) bs" and w': "w' = w"
          and m': "c_maxreads c' = c_maxreads c"
          by auto
        from True m' have le: "j + 1 \<le> c_maxreads c'" by simp
        from i Suc have i': "i' < length srts" by simp
        from Cons.IH [OF c' le, rule_format, OF i'] show ?thesis
          by (simp add: g Suc w' m' add.assoc add.commute add.left_commute)
      next
        case False
        with Cons.prems(2) Suc show ?thesis by simp
      qed
    qed
  qed
qed

text \<open>
  C2 (amended). Let the first of \<open>maxreads + 1\<close> sequential calls for one key, with
  \<open>maxreads \<ge> 1\<close>, find no live segment for the key, let its fetcher succeed with the blocks
  \<open>bs\<close>, leaving the world \<open>w1\<close>, and let the new segment be in the table when the call
  returns. Then the calls 2 to \<open>maxreads\<close> return \<open>bs\<close> and leave the world at \<open>w1\<close>: the
  fetcher is not invoked. The call \<open>maxreads + 1\<close> finds that \<open>pruneMaxRead\<close> deletes the
  segment, invokes the fetcher in the world \<open>w1\<close> and returns what \<open>cache.get\<close> makes of
  its result.
\<close>

theorem cache_get_bounded_reuse:
  assumes d: "distinct (cache_keys c)" and s: "sorts (hd srts)"
    and m: "1 \<le> c_maxreads c" and len: "length srts = nat (c_maxreads c) + 1"
    and n: "map_of (c_segments (pruneMaxRead c)) (start, limit) = None"
    and fw: "f w start limit = ((bs, None), w1)"
    and r: "(start, limit) \<in>
        set (cache_keys (fst (snd (cache_get (hd srts) c False f w start limit))))"
  shows
    "fst (cache_gets srts c f w start limit ! 0) = (bs, None) \<and>
     snd (snd (cache_gets srts c f w start limit ! 0)) = w1 \<and>
     (\<forall>j. 1 \<le> j \<and> j < nat (c_maxreads c) \<longrightarrow>
        fst (cache_gets srts c f w start limit ! j) = (bs, None) \<and>
        snd (snd (cache_gets srts c f w start limit ! j)) = w1) \<and>
     map_of (c_segments (pruneMaxRead
        (fst (snd (cache_gets srts c f w start limit ! (nat (c_maxreads c) - 1))))))
        (start, limit) = None \<and>
     fst (cache_gets srts c f w start limit ! nat (c_maxreads c)) =
        fetched (fst (f w1 start limit)) \<and>
     snd (snd (cache_gets srts c f w start limit ! nat (c_maxreads c))) =
        snd (f w1 start limit)"
proof -
  let ?m = "c_maxreads c"
  from len obtain s0 rest where srts: "srts = s0 # rest" and lr: "length rest = nat ?m"
    by (cases srts) auto
  let ?c1 = "fst (snd (cache_get s0 c False f w start limit))"
  from step_first [where srt = s0 and c = c and f = f and w = w and start = start
      and limit = limit and bs = bs and ?w1.0 = w1] d n fw s r srts
  have f1: "fst (cache_get s0 c False f w start limit) = (bs, None)"
    and f2: "snd (snd (cache_get s0 c False f w start limit)) = w1"
    and c1: "cached ?c1 (start, limit) 1 bs" and m1: "c_maxreads ?c1 = ?m"
    by simp_all
  have tr: "cache_gets srts c f w start limit =
      cache_get s0 c False f w start limit # cache_gets rest ?c1 f w1 start limit"
    using f2 by (cases "cache_get s0 c False f w start limit") (simp add: srts)
  from m m1 have le: "1 \<le> c_maxreads ?c1" by simp
  note R = run [OF c1 le, of rest f w1, unfolded m1 lr, rule_format]
  have hits: "fst (cache_gets srts c f w start limit ! j) = (bs, None) \<and>
        snd (snd (cache_gets srts c f w start limit ! j)) = w1"
    if j: "1 \<le> j \<and> j < nat ?m" for j
  proof -
    from j obtain i where i: "j = Suc i" by (cases j) auto
    with j have "i < nat ?m" "1 + int i < ?m" by auto
    from R [OF this(1)] this(2) show ?thesis by (simp add: tr i)
  qed
  have last: "fst (cache_gets srts c f w start limit ! nat ?m) = fetched (fst (f w1 start limit)) \<and>
     snd (snd (cache_gets srts c f w start limit ! nat ?m)) = snd (f w1 start limit)"
  proof -
    from m obtain i where i: "nat ?m = Suc i" by (cases "nat ?m") auto
    then have "i < nat ?m" "1 + int i = ?m" by auto
    from R [OF this(1)] this(2) show ?thesis by (simp add: tr i)
  qed
  have full: "cached (fst (snd (cache_gets srts c f w start limit ! (nat ?m - 1)))) (start, limit) ?m bs \<and>
      c_maxreads (fst (snd (cache_gets srts c f w start limit ! (nat ?m - 1)))) = ?m"
  proof (cases "?m = 1")
    case True
    with c1 m1 show ?thesis by (simp add: tr)
  next
    case False
    with m obtain i where i: "nat ?m - 1 = Suc i" by (cases "nat ?m - 1") auto
    then have "i < nat ?m" "1 + int i < ?m" "1 + int i + 1 = ?m" by auto
    from R [OF this(1)] this(2,3) show ?thesis unfolding i tr by simp
  qed
  then have cf: "cached (fst (snd (cache_gets srts c f w start limit ! (nat ?m - 1)))) (start, limit) ?m bs"
    and mm: "c_maxreads (fst (snd (cache_gets srts c f w start limit ! (nat ?m - 1)))) \<le> ?m"
    by simp_all
  have pruned: "map_of (c_segments (pruneMaxRead
        (fst (snd (cache_gets srts c f w start limit ! (nat ?m - 1)))))) (start, limit) = None"
    using step_miss [OF cf mm, of s0 f w] by simp
  from f1 f2 hits last pruned show ?thesis by (simp add: tr)
qed


lemma small_first:
  "cache_get sort_desc small_cache False count_getter 0 60 1 =
     (([blk 60 [1] [0]], None),
      \<lparr>c_maxreads = 3, c_segments =
         [((10, 1), todo),
          ((60, 1), \<lparr>seg_nreads = 1, seg_done = True, seg_d = [blk 60 [1] [0]]\<rparr>)]\<rparr>,
      1)"
  by (simp add: cache_get_def find_segment_def pruneMaxRead_def pruneSegments_def
      store_def small_cache_def todo_def new_segment_def count_getter_def Let_def)

theorem cache_get_bounded_reuse_witness:
  "distinct (cache_keys small_cache) \<and> sorts sort_desc \<and> 1 \<le> c_maxreads small_cache \<and>
   length [sort_desc, sort_desc, sort_desc, sort_desc] = nat (c_maxreads small_cache) + 1 \<and>
   map_of (c_segments (pruneMaxRead small_cache)) (60, 1) = None \<and>
   count_getter 0 60 1 = (([blk 60 [1] [0]], None), 1) \<and>
   map fst (cache_gets [sort_desc, sort_desc, sort_desc, sort_desc] small_cache count_getter 0 60 1) =
     [([blk 60 [1] [0]], None), ([blk 60 [1] [0]], None), ([blk 60 [1] [0]], None),
      ([blk 60 [1] [0]], None)] \<and>
   map (\<lambda>x. snd (snd x))
     (cache_gets [sort_desc, sort_desc, sort_desc, sort_desc] small_cache count_getter 0 60 1) =
     [1, 1, 1, 2]"
proof -
  let ?srts = "[sort_desc, sort_desc, sort_desc, sort_desc]"
  let ?tr = "cache_gets ?srts small_cache count_getter 0 60 1"
  have d: "distinct (cache_keys small_cache)"
    by (simp add: cache_keys_def small_cache_def)
  have s: "sorts (hd ?srts)" by (simp add: sorts_sort_desc)
  have m: "1 \<le> c_maxreads small_cache" by (simp add: small_cache_def)
  have len: "length ?srts = nat (c_maxreads small_cache) + 1" by (simp add: small_cache_def)
  have n: "map_of (c_segments (pruneMaxRead small_cache)) (60, 1) = None"
    by (simp add: pruneMaxRead_def small_cache_def todo_def)
  have fw: "count_getter 0 60 1 = (([blk 60 [1] [0]], None), 1)"
    by (simp add: count_getter_def)
  have r: "(60, 1) \<in> set (cache_keys (fst (snd (cache_get (hd ?srts) small_cache False count_getter 0 60 1))))"
    by (simp add: small_first cache_keys_def)
  note t = cache_get_bounded_reuse [OF d s m len n fw r]
  have l4: "length ?tr = 4"
    by (simp split: prod.splits)
  have m3: "nat (c_maxreads small_cache) = 3" by (simp add: small_cache_def)
  from t have t0: "fst (?tr ! 0) = ([blk 60 [1] [0]], None)" "snd (snd (?tr ! 0)) = 1"
    by blast+
  from t have "1 \<le> (1::nat) \<and> 1 < nat (c_maxreads small_cache) \<longrightarrow>
      fst (?tr ! 1) = ([blk 60 [1] [0]], None) \<and> snd (snd (?tr ! 1)) = 1" by blast
  then have t1: "fst (?tr ! 1) = ([blk 60 [1] [0]], None)" "snd (snd (?tr ! 1)) = 1"
    by (simp_all add: m3)
  from t have "1 \<le> (2::nat) \<and> 2 < nat (c_maxreads small_cache) \<longrightarrow>
      fst (?tr ! 2) = ([blk 60 [1] [0]], None) \<and> snd (snd (?tr ! 2)) = 1" by blast
  then have t2: "fst (?tr ! 2) = ([blk 60 [1] [0]], None)" "snd (snd (?tr ! 2)) = 1"
    by (simp_all add: m3)
  from t have t3: "fst (?tr ! 3) = fetched (fst (count_getter 1 60 1))"
      "snd (snd (?tr ! 3)) = snd (count_getter 1 60 1)"
    by (simp_all only: m3)
  have idx: "xs = [xs ! 0, xs ! 1, xs ! 2, xs ! 3]" if "length xs = 4" for xs :: "'x list"
    using that by (auto simp: list_eq_iff_nth_eq less_Suc_eq numeral_eq_Suc)
  have "map fst ?tr = [fst (?tr ! 0), fst (?tr ! 1), fst (?tr ! 2), fst (?tr ! 3)]"
    using idx [of "map fst ?tr"] l4 by simp
  then have a: "map fst ?tr = [([blk 60 [1] [0]], None), ([blk 60 [1] [0]], None),
      ([blk 60 [1] [0]], None), ([blk 60 [1] [0]], None)]"
    by (simp only: t0 t1 t2 t3) (simp add: count_getter_def fetched_def)
  have "map (\<lambda>x. snd (snd x)) ?tr =
      [snd (snd (?tr ! 0)), snd (snd (?tr ! 1)), snd (snd (?tr ! 2)), snd (snd (?tr ! 3))]"
    using idx [of "map (\<lambda>x. snd (snd x)) ?tr"] l4 by simp
  then have b: "map (\<lambda>x. snd (snd x)) ?tr = [1, 1, 1, 2]"
    by (simp only: t0 t1 t2 t3) (simp add: count_getter_def)
  from d m len n fw a b sorts_sort_desc show ?thesis by simp
qed

text \<open>
  The claim C2 as stated fails when the table is full of segments with greater starts:
  the segment of the first call is deleted by \<open>pruneSegments\<close> in that very call, its
  blocks are stored out of reach, and the second call (of \<open>maxreads = 20\<close>) invokes the
  fetcher again: the world, which counts the invocations, is at 2 after it.
\<close>

theorem cache_get_evicted_counterexample:
  "(2::int) \<le> c_maxreads full_cache \<and>
   fst (cache_gets [sort_desc, sort_desc] full_cache count_getter 0 5 1 ! 0) =
     ([blk 5 [1] [0]], None) \<and>
   snd (snd (cache_gets [sort_desc, sort_desc] full_cache count_getter 0 5 1 ! 0)) = 1 \<and>
   cache_keys (fst (snd (cache_gets [sort_desc, sort_desc] full_cache count_getter 0 5 1 ! 0))) =
     [(10, 1), (20, 1), (30, 1), (40, 1), (50, 1)] \<and>
   snd (snd (cache_gets [sort_desc, sort_desc] full_cache count_getter 0 5 1 ! 1)) = 2"
  by (simp add: cache_get_def find_segment_def pruneMaxRead_def pruneSegments_def sort_desc_def
      store_def cache_keys_def full_cache_def todo_def new_segment_def count_getter_def Let_def)

subsection \<open>The bounds checks of receipts and logs\<close>

lemma pass_dom: "dom bm' = dom bm \<Longrightarrow> receipt_pass s l bm' = receipt_pass s l bm"
  by (auto simp: receipt_pass_def fun_eq_iff)

lemma receipts_loop_out:
  "(\<exists>n. fst (receipts_loop start limit bm resps) = Some (ReceiptsOutOfRange n start limit)) \<longleftrightarrow>
   (\<exists>r. find (\<lambda>r. \<not> receipt_pass start limit bm r) resps = Some r \<and> receipt_out start limit r)"
proof (induction resps arbitrary: bm)
  case Nil
  show ?case by simp
next
  case (Cons resp resps)
  show ?case
  proof (cases "rcr_Result resp")
    case Nil
    then have "receipt_pass start limit bm resp" by (simp add: receipt_pass_def)
    with Nil Cons.IH [of bm] show ?thesis by simp
  next
    case c: (Cons r0 rs)
    show ?thesis
    proof (cases "rr_BlockNum r0 < start \<or> rr_BlockNum r0 > start + limit")
      case True
      then have "\<not> receipt_pass start limit bm resp" "receipt_out start limit resp"
        using c by (auto simp: receipt_pass_def receipt_out_def)
      with True c show ?thesis by (simp add: Let_def)
    next
      case False
      then have no: "\<not> receipt_out start limit resp"
        using c by (simp add: receipt_out_def)
      show ?thesis
      proof (cases "bm (rr_BlockNum r0)")
        case None
        then have "\<not> receipt_pass start limit bm resp"
          using c by (auto simp: receipt_pass_def)
        with None False c no show ?thesis by (simp add: Let_def)
      next
        case (Some b)
        let ?bm = "bm(rr_BlockNum r0 \<mapsto>
          foldl write_receipt (b\<lparr>Header := (Header b)\<lparr>Hash :=
             Bytes_Write (Hash (Header b)) (rr_BlockHash r0)\<rparr>\<rparr>) (r0 # rs))"
        have p: "receipt_pass start limit bm resp"
          using c False Some by (auto simp: receipt_pass_def not_less)
        have "dom ?bm = dom bm" using Some by auto
        then have eq: "receipt_pass start limit ?bm = receipt_pass start limit bm" by (rule pass_dom)
        have step: "receipts_loop start limit bm (resp # resps) = receipts_loop start limit ?bm resps"
          using c False Some by (simp add: Let_def)
        have fnd: "find (\<lambda>r. \<not> receipt_pass start limit bm r) (resp # resps) =
            find (\<lambda>r. \<not> receipt_pass start limit bm r) resps"
          using p by simp
        show ?thesis unfolding step fnd using Cons.IH [of ?bm] by (simp only: eq)
      qed
    qed
  qed
qed

lemma group_logs_out:
  "(\<exists>n. group_logs start limit acc rs = Inl (LogsOutOfRange n start limit)) \<longleftrightarrow>
   (\<exists>r \<in> set rs. log_out start limit r)"
proof (induction rs arbitrary: acc)
  case Nil
  show ?case by simp
next
  case (Cons r rs)
  show ?case
  proof (cases "log_out start limit r")
    case True
    then show ?thesis by (auto simp: log_out_def Let_def)
  next
    case False
    then show ?thesis
      using Cons.IH by (cases "map_of acc (lr_BlockNum r, lr_TxIdx r)") (auto simp: log_out_def Let_def)
  qed
qed

lemma group_logs_err:
  "group_logs start limit acc rs = Inl e \<Longrightarrow> \<exists>n. e = LogsOutOfRange n start limit"
proof (induction rs arbitrary: acc)
  case Nil
  then show ?case by simp
next
  case (Cons r rs)
  then show ?case
    by (cases "map_of acc (lr_BlockNum r, lr_TxIdx r)") (auto simp: Let_def split: if_splits)
qed

lemma logs_write_step:
  "(\<exists>bm'. logs_write bm ((k, logs) # groups) = logs_write bm' groups) \<or>
   fst (logs_write bm ((k, logs) # groups)) \<in>
     {Some BlockNotFound, Some IndexOutOfRange, Some NilDeref}"
  by (simp add: Let_def split: option.splits list.splits prod.splits) blast

lemma logs_write_errs:
  "fst (logs_write bm groups) \<in> {None, Some BlockNotFound, Some IndexOutOfRange, Some NilDeref}"
proof (induction groups arbitrary: bm)
  case Nil
  show ?case by simp
next
  case (Cons g groups)
  obtain k logs where g: "g = (k, logs)" by (cases g)
  from logs_write_step [of bm k logs groups] show ?case
  proof
    assume "\<exists>bm'. logs_write bm ((k, logs) # groups) = logs_write bm' groups"
    then obtain bm' where "logs_write bm ((k, logs) # groups) = logs_write bm' groups" ..
    with Cons.IH [of bm'] show ?thesis by (simp only: g)
  next
    assume "fst (logs_write bm ((k, logs) # groups)) \<in>
      {Some BlockNotFound, Some IndexOutOfRange, Some NilDeref}"
    then show ?thesis unfolding g by blast
  qed
qed

lemma logs_write_err:
  "fst (logs_write bm groups) \<noteq> Some (LogsOutOfRange n start limit)"
  using logs_write_errs [of bm groups] by auto


lemma receipts_loop_sound:
  "fst (receipts_loop start limit bm resps) = Some (ReceiptsOutOfRange n s l) \<Longrightarrow>
     n < start \<or> n > start + limit"
proof (induction resps arbitrary: bm)
  case Nil
  then show ?case by simp
next
  case (Cons resp resps)
  show ?case
  proof (cases "rcr_Result resp")
    case Nil
    with Cons show ?thesis by simp
  next
    case c: (Cons r0 rs)
    show ?thesis
    proof (cases "rr_BlockNum r0 < start \<or> rr_BlockNum r0 > start + limit")
      case True
      with c Cons.prems show ?thesis by (auto simp: Let_def)
    next
      case False
      show ?thesis
      proof (cases "bm (rr_BlockNum r0)")
        case None
        with c False Cons.prems show ?thesis by (simp add: Let_def)
      next
        case (Some b)
        let ?bm = "bm(rr_BlockNum r0 \<mapsto>
          foldl write_receipt (b\<lparr>Header := (Header b)\<lparr>Hash :=
             Bytes_Write (Hash (Header b)) (rr_BlockHash r0)\<rparr>\<rparr>) (r0 # rs))"
        have step: "receipts_loop start limit bm (resp # resps) = receipts_loop start limit ?bm resps"
          using c False Some by (simp add: Let_def)
        from Cons.prems show ?thesis unfolding step by (rule Cons.IH)
      qed
    qed
  qed
qed

lemma group_logs_sound:
  "group_logs start limit acc rs = Inl e \<Longrightarrow>
     \<exists>r \<in> set rs. log_out start limit r \<and> e = LogsOutOfRange (lr_BlockNum r) start limit"
proof (induction rs arbitrary: acc)
  case Nil
  then show ?case by simp
next
  case (Cons r rs)
  show ?case
  proof (cases "log_out start limit r")
    case True
    with Cons.prems show ?thesis by (auto simp: log_out_def Let_def)
  next
    case False
    with Cons.prems have "\<exists>acc'. group_logs start limit acc' rs = Inl e"
      by (cases "map_of acc (lr_BlockNum r, lr_TxIdx r)") (auto simp: log_out_def Let_def)
    then obtain acc' where "group_logs start limit acc' rs = Inl e" ..
    from Cons.IH [OF this] show ?thesis by auto
  qed
qed

lemma Client_receipts_ok:
  assumes "dor w start limit = (Inr resps, w')" "\<forall>r \<in> set resps. \<not> Exists (rcr_Error r)"
  shows "Client_receipts dor w bm start limit = (receipts_loop start limit bm resps, w')"
proof -
  from assms(2) have "find (\<lambda>r. Exists (rcr_Error r)) resps = None"
    by (simp add: find_None_iff)
  with assms(1) show ?thesis by (simp add: Client_receipts_def)
qed

lemma Client_receipts_sound:
  assumes "fst (fst (Client_receipts dor w bm start limit)) = Some (ReceiptsOutOfRange n s l)"
  shows "n < start \<or> n > start + limit"
proof -
  obtain rp w' where d: "dor w start limit = (rp, w')" by (cases "dor w start limit")
  show ?thesis
  proof (cases rp)
    case (Inl e)
    with d assms show ?thesis by (simp add: Client_receipts_def)
  next
    case (Inr resps)
    show ?thesis
    proof (cases "find (\<lambda>r. Exists (rcr_Error r)) resps")
      case None
      with d Inr assms have "fst (receipts_loop start limit bm resps) = Some (ReceiptsOutOfRange n s l)"
        by (simp add: Client_receipts_def)
      then show ?thesis by (rule receipts_loop_sound)
    next
      case (Some r)
      with d Inr assms show ?thesis by (simp add: Client_receipts_def)
    qed
  qed
qed

lemma Client_logs_ok:
  assumes "dol w start limit = (Inr (hresp, lresp), w')" "\<not> Exists (hr_Error hresp)"
    "\<not> Exists (lgr_Error lresp)" "hr_Header hresp \<noteq> None"
  shows "fst (fst (Client_logs visit dol w bm start limit)) =
     (case group_logs start limit [] (lgr_Result lresp) of
        Inl e \<Rightarrow> Some e
      | Inr groups \<Rightarrow> fst (logs_write bm (visit groups)))"
  using assms by (auto simp: Client_logs_def Let_def split: sum.splits)

lemma Client_logs_iff:
  assumes "dol w start limit = (Inr (hresp, lresp), w')" "\<not> Exists (hr_Error hresp)"
    "\<not> Exists (lgr_Error lresp)" "hr_Header hresp \<noteq> None"
  shows "(\<exists>n. fst (fst (Client_logs visit dol w bm start limit)) = Some (LogsOutOfRange n start limit))
     \<longleftrightarrow> (\<exists>r \<in> set (lgr_Result lresp). log_out start limit r)"
proof (cases "group_logs start limit [] (lgr_Result lresp)")
  case (Inl e)
  from group_logs_sound [OF Inl] Inl
    Client_logs_ok [where dol = dol and visit = visit and bm = bm and w = w and start = start
      and limit = limit and hresp = hresp and lresp = lresp and w' = w'] assms
  show ?thesis by auto
next
  case (Inr groups)
  then have "\<not> (\<exists>r \<in> set (lgr_Result lresp). log_out start limit r)"
    using group_logs_out [of start limit "[]" "lgr_Result lresp"] by simp
  with Inr logs_write_err [of bm "visit groups"]
    Client_logs_ok [where dol = dol and visit = visit and bm = bm and w = w and start = start
      and limit = limit and hresp = hresp and lresp = lresp and w' = w'] assms
  show ?thesis by auto
qed

lemma Client_logs_sound:
  assumes "fst (fst (Client_logs visit dol w bm start limit)) = Some (LogsOutOfRange n s l)"
  shows "n < start \<or> n \<ge> start + limit"
proof -
  obtain rp w' where d: "dol w start limit = (rp, w')" by (cases "dol w start limit")
  show ?thesis
  proof (cases rp)
    case (Inl e)
    with d assms show ?thesis by (simp add: Client_logs_def Let_def)
  next
    case (Inr pr)
    obtain hresp lresp where pr: "pr = (hresp, lresp)" by (cases pr)
    show ?thesis
    proof (cases "Exists (hr_Error hresp) \<or> Exists (lgr_Error lresp) \<or> hr_Header hresp = None")
      case True
      with d Inr pr assms show ?thesis by (auto simp: Client_logs_def Let_def split: if_splits)
    next
      case False
      show ?thesis
      proof (cases "group_logs start limit [] (lgr_Result lresp)")
        case (Inl e)
        with d Inr pr False assms have "e = LogsOutOfRange n s l"
          by (auto simp: Client_logs_def Let_def)
        with group_logs_sound [OF Inl] show ?thesis by (auto simp: log_out_def)
      next
        case i: (Inr groups)
        with d Inr pr False assms logs_write_err [of bm "visit groups" n s l] show ?thesis
          by (auto simp: Client_logs_def Let_def)
      qed
    qed
  qed
qed

text \<open>
  C7 (amended). When the batch has no transport and no RPC error, \<open>receipts\<close> returns the
  out-of-range error exactly when the first response that does not pass its checks is
  out of range: its reported block number, the one of its first receipt, is below \<open>start\<close>
  or above \<open>start + limit\<close>, the upper bound itself being accepted. When the call has no
  transport and no RPC error and the header is there, \<open>logs\<close> returns its out-of-range error
  exactly when some log has a block number below \<open>start\<close> or not below \<open>start + limit\<close>.
  The number in either error is out of the range of its check: no result in range is
  rejected by these checks. All comparisons are those of \<open>uint64\<close>.
\<close>

theorem out_of_range_bounds:
  "(dor w start limit = (Inr resps, w') \<and> (\<forall>r \<in> set resps. \<not> Exists (rcr_Error r)) \<longrightarrow>
      ((\<exists>n. fst (fst (Client_receipts dor w bm start limit)) =
            Some (ReceiptsOutOfRange n start limit)) \<longleftrightarrow>
       (\<exists>r. find (\<lambda>r. \<not> receipt_pass start limit bm r) resps = Some r \<and>
            receipt_out start limit r))) \<and>
   (fst (fst (Client_receipts dor w bm start limit)) = Some (ReceiptsOutOfRange n s l) \<longrightarrow>
      n < start \<or> n > start + limit) \<and>
   (dol w start limit = (Inr (hresp, lresp), w'') \<and> \<not> Exists (hr_Error hresp) \<and>
    \<not> Exists (lgr_Error lresp) \<and> hr_Header hresp \<noteq> None \<longrightarrow>
      ((\<exists>n. fst (fst (Client_logs visit dol w bm start limit)) =
            Some (LogsOutOfRange n start limit)) \<longleftrightarrow>
       (\<exists>r \<in> set (lgr_Result lresp). log_out start limit r))) \<and>
   (fst (fst (Client_logs visit dol w bm start limit)) = Some (LogsOutOfRange n s l) \<longrightarrow>
      n < start \<or> n \<ge> start + limit)"
proof -
  have a: "(\<exists>n. fst (fst (Client_receipts dor w bm start limit)) =
            Some (ReceiptsOutOfRange n start limit)) \<longleftrightarrow>
       (\<exists>r. find (\<lambda>r. \<not> receipt_pass start limit bm r) resps = Some r \<and>
            receipt_out start limit r)"
    if "dor w start limit = (Inr resps, w')" "\<forall>r \<in> set resps. \<not> Exists (rcr_Error r)"
    using that receipts_loop_out [of start limit bm resps]
      Client_receipts_ok [where dor = dor and w = w and start = start and limit = limit
        and resps = resps and w' = w' and bm = bm]
    by simp
  have b: "(\<exists>n. fst (fst (Client_logs visit dol w bm start limit)) =
            Some (LogsOutOfRange n start limit)) \<longleftrightarrow>
       (\<exists>r \<in> set (lgr_Result lresp). log_out start limit r)"
    if "dol w start limit = (Inr (hresp, lresp), w'')" "\<not> Exists (hr_Error hresp)"
      "\<not> Exists (lgr_Error lresp)" "hr_Header hresp \<noteq> None"
    using that Client_logs_iff [where dol = dol and visit = visit and bm = bm and w = w
        and start = start and limit = limit and hresp = hresp and lresp = lresp and w' = w'']
    by simp
  from a b Client_receipts_sound [of dor w bm start limit n s l]
    Client_logs_sound [of visit dol w bm start limit n s l]
  show ?thesis by blast
qed


lemma ex_receipts:
  "fst (fst (Client_receipts
      (receipts_do [receipts_of [rcpt 10 0 [1]], receipts_of [rcpt 13 0 [2]]]) 0 bm_ten 10 2)) =
     Some (ReceiptsOutOfRange 13 10 2)"
  by (simp add: Client_receipts_def receipts_do_def receipts_of_def rcpt_def zero_receipt_def
      no_Error_def Exists_def bm_ten_def Let_def)

lemma ex_receipts_edge:
  "fst (fst (Client_receipts (receipts_do [receipts_of [rcpt 12 0 [1]]]) 0 bm_ten 10 2)) =
     Some BlockNotFound"
  by (simp add: Client_receipts_def receipts_do_def receipts_of_def rcpt_def zero_receipt_def
      no_Error_def Exists_def bm_ten_def Let_def)

lemma ex_logs:
  "fst (fst (Client_logs id (logs_do header_ok [lg 10 0, lg 12 0]) 0 bm_ten 10 2)) =
     Some (LogsOutOfRange 12 10 2)"
  by (simp add: Client_logs_def logs_do_def header_ok_def lg_def no_Error_def Exists_def Let_def)

theorem out_of_range_bounds_witness:
  "receipts_do [receipts_of [rcpt 10 0 [1]], receipts_of [rcpt 13 0 [2]]] 0 10 2 =
     (Inr [receipts_of [rcpt 10 0 [1]], receipts_of [rcpt 13 0 [2]]], 1) \<and>
   find (\<lambda>r. \<not> receipt_pass 10 2 bm_ten r)
     [receipts_of [rcpt 10 0 [1]], receipts_of [rcpt 13 0 [2]]] = Some (receipts_of [rcpt 13 0 [2]]) \<and>
   receipt_out 10 2 (receipts_of [rcpt 13 0 [2]]) \<and>
   (\<exists>n. fst (fst (Client_receipts
      (receipts_do [receipts_of [rcpt 10 0 [1]], receipts_of [rcpt 13 0 [2]]]) 0 bm_ten 10 2)) =
      Some (ReceiptsOutOfRange n 10 2)) \<and>
   fst (fst (Client_receipts
      (receipts_do [receipts_of [rcpt 10 0 [1]], receipts_of [rcpt 13 0 [2]]]) 0 bm_ten 10 2)) =
     Some (ReceiptsOutOfRange 13 10 2) \<and>
   fst (fst (Client_receipts (receipts_do [receipts_of [rcpt 12 0 [1]]]) 0 bm_ten 10 2)) =
     Some BlockNotFound \<and>
   log_out 10 2 (lg 12 0) \<and>
   (\<exists>n. fst (fst (Client_logs id (logs_do header_ok [lg 10 0, lg 12 0]) 0 bm_ten 10 2)) =
      Some (LogsOutOfRange n 10 2)) \<and>
   fst (fst (Client_logs id (logs_do header_ok [lg 10 0, lg 12 0]) 0 bm_ten 10 2)) =
     Some (LogsOutOfRange 12 10 2)"
proof -
  let ?resps = "[receipts_of [rcpt 10 0 [1]], receipts_of [rcpt 13 0 [2]]]"
  note t = out_of_range_bounds [where dor = "receipts_do ?resps" and w = 0 and start = 10 and limit = 2
      and resps = ?resps and w' = 1 and bm = bm_ten and n = 13 and s = 10 and l = 2
      and dol = "logs_do header_ok [lg 10 0, lg 12 0]" and hresp = header_ok
      and lresp = "\<lparr>lgr_Error = no_Error, lgr_Result = [lg 10 0, lg 12 0]\<rparr>" and w'' = 1
      and visit = id]
  have h1: "receipts_do ?resps 0 10 2 = (Inr ?resps, 1)"
    by (simp add: receipts_do_def)
  have h2: "\<forall>r \<in> set ?resps. \<not> Exists (rcr_Error r)"
    by (simp add: receipts_of_def no_Error_def Exists_def)
  have f: "find (\<lambda>r. \<not> receipt_pass 10 2 bm_ten r) ?resps = Some (receipts_of [rcpt 13 0 [2]])"
    by (simp add: receipt_pass_def receipts_of_def rcpt_def zero_receipt_def bm_ten_def)
  have o: "receipt_out 10 2 (receipts_of [rcpt 13 0 [2]])"
    by (simp add: receipt_out_def receipts_of_def rcpt_def zero_receipt_def)
  from t h1 h2 f o
  have r: "\<exists>n. fst (fst (Client_receipts (receipts_do ?resps) 0 bm_ten 10 2)) =
      Some (ReceiptsOutOfRange n 10 2)"
    by blast
  have h3: "logs_do header_ok [lg 10 0, lg 12 0] 0 10 2 =
      (Inr (header_ok, \<lparr>lgr_Error = no_Error, lgr_Result = [lg 10 0, lg 12 0]\<rparr>), 1)"
    by (simp add: logs_do_def)
  have h4: "\<not> Exists (hr_Error header_ok)" "hr_Header header_ok \<noteq> None"
    "\<not> Exists (lgr_Error \<lparr>lgr_Error = no_Error, lgr_Result = [lg 10 0, lg 12 0]\<rparr>)"
    by (simp_all add: header_ok_def no_Error_def Exists_def)
  have lo: "log_out 10 2 (lg 12 0)"
    by (simp add: log_out_def lg_def)
  then have "\<exists>r \<in> set (lgr_Result \<lparr>lgr_Error = no_Error, lgr_Result = [lg 10 0, lg 12 0]\<rparr>).
      log_out 10 2 r" by simp
  with t h3 h4
  have g: "\<exists>n. fst (fst (Client_logs id (logs_do header_ok [lg 10 0, lg 12 0]) 0 bm_ten 10 2)) =
      Some (LogsOutOfRange n 10 2)"
    by blast
  from h1 f o r g lo ex_receipts ex_receipts_edge ex_logs show ?thesis by blast
qed

text \<open>
  The claim C7 as stated fails where an earlier response fails the lookup: in the window
  \<open>start = 10\<close>, \<open>limit = 2\<close> the first response reports the block 12, which the inclusive
  bound accepts and the blockmap does not hold, so \<open>receipts\<close> returns "block not found" and
  never reaches the second response, whose block 99 is out of range.
\<close>

theorem receipts_out_of_range_counterexample:
  "fst (fst (Client_receipts
      (receipts_do [receipts_of [rcpt 12 0 [1]], receipts_of [rcpt 99 0 [2]]]) 0 bm_ten 10 2)) =
     Some BlockNotFound \<and>
   receipt_out 10 2 (receipts_of [rcpt 99 0 [2]]) \<and>
   rr_BlockNum (hd (rcr_Result (receipts_of [rcpt 99 0 [2]]))) > 10 + 2"
  by (simp add: Client_receipts_def receipts_do_def receipts_of_def rcpt_def zero_receipt_def
      no_Error_def Exists_def bm_ten_def receipt_out_def Let_def)

subsection \<open>The error of logs when the header call failed\<close>

text \<open>
  C10. When the \<open>eth_getBlockByNumber\<close> half of the batch of \<open>logs\<close> reports a JSON-RPC error,
  the error that \<open>logs\<close> returns wraps the error value of the \<open>eth_getLogs\<close> response and not
  the header response's own error; the blocks are left as they are.
\<close>

theorem logs_header_error_wraps_logs_error:
  "dol w start limit = (Inr (hresp, lresp), w') \<and> Exists (hr_Error hresp) \<longrightarrow>
     Client_logs visit dol w bm start limit =
       ((Some (Rpc ''eth_getLogs/eth_getBlockByNumber'' (lgr_Error lresp)), bm), w')"
  by (simp add: Client_logs_def Let_def)

theorem logs_header_error_wraps_logs_error_witness:
  "logs_do header_err [] 0 10 2 =
     (Inr (header_err, \<lparr>lgr_Error = no_Error, lgr_Result = []\<rparr>), 1) \<and>
   Exists (hr_Error header_err) \<and>
   Client_logs id (logs_do header_err []) 0 bm_ten 10 2 =
     ((Some (Rpc ''eth_getLogs/eth_getBlockByNumber'' no_Error), bm_ten), 1) \<and>
   hr_Error header_err \<noteq> no_Error"
proof -
  have h: "logs_do header_err [] 0 10 2 =
     (Inr (header_err, \<lparr>lgr_Error = no_Error, lgr_Result = []\<rparr>), 1)"
    by (simp add: logs_do_def)
  have e: "Exists (hr_Error header_err)" "hr_Error header_err \<noteq> no_Error"
    by (simp_all add: header_err_def Exists_def no_Error_def)
  from logs_header_error_wraps_logs_error [where dol = "logs_do header_err []" and w = 0 and start = 10 and limit = 2
      and hresp = header_err and lresp = "\<lparr>lgr_Error = no_Error, lgr_Result = []\<rparr>" and w' = 1
      and visit = id and bm = bm_ten] h e
  show ?thesis by simp
qed

subsection \<open>Receipts are stitched by the first block number\<close>









lemma find_Tx_None: "find_Tx ts idx = None \<Longrightarrow> idx \<notin> Idx ` set ts"
  by (induction ts) (auto split: if_splits)

lemma Idx_receipt_tx [simp]: "Idx (receipt_tx t r) = Idx t"
  by (simp add: receipt_tx_def)




lemma Header_write [simp]: "Header (write_receipt b y) = Header b"
  by (simp add: write_receipt_def Block_Tx_def Let_def split: option.splits)










end
